theory Spec2Isabelle
  imports Main
begin

section \<open>Strings of the worker\<close>

text \<open>
  A JavaScript string is a sequence of UTF-16 code units; a code unit is modelled as the
  natural number it stands for. \<open>js\<close> writes such a string from an ASCII literal.
\<close>

type_synonym jsstring = "nat list"

definition js :: "string \<Rightarrow> jsstring" where
  "js s = map of_char s"

text \<open>
  The class \<^verbatim>\<open>\s\<close> of a JavaScript regular expression: the white space and the line
  terminators of ECMAScript.
\<close>

definition is_space :: "nat \<Rightarrow> bool" where
  "is_space c \<longleftrightarrow>
     c = 9 \<or> c = 10 \<or> c = 11 \<or> c = 12 \<or> c = 13 \<or> c = 32 \<or> c = 160 \<or> c = 5760
   \<or> (8192 \<le> c \<and> c \<le> 8202) \<or> c = 8232 \<or> c = 8233 \<or> c = 8239 \<or> c = 8287
   \<or> c = 12288 \<or> c = 65279"

definition starts_with :: "jsstring \<Rightarrow> jsstring \<Rightarrow> bool" where
  "starts_with p s \<longleftrightarrow> take (length p) s = p"

subsection \<open>The two regular expressions of \<^verbatim>\<open>processIssue\<close>\<close>

text \<open>
  \<^verbatim>\<open>issue.body.match(/```json\s*\{[\s\S]*?\}\s*```/m)\<close>, line 72. The expression has no
  anchor, so the flag \<^verbatim>\<open>m\<close> changes nothing. A backtracking matcher tries the start
  positions from the left. At one start position the opening fence and the white space
  after it are fixed, since neither \<^verbatim>\<open>{\<close> nor a backtick is white space; the lazy
  \<^verbatim>\<open>[\s\S]*?\<close> then stops at the first \<^verbatim>\<open>}\<close> that white space and a closing fence
  follow. \<open>lazy_close\<close> gives the text matched after the opening brace, \<open>match_here\<close> the
  match at one start position, \<open>fence_match\<close> the element \<^verbatim>\<open>[0]\<close> of the result.
\<close>

definition ticks :: jsstring where
  "ticks = js ''```''"

definition fence :: jsstring where
  "fence = js ''```json''"

fun lazy_close :: "jsstring \<Rightarrow> jsstring option" where
  "lazy_close [] = None"
| "lazy_close (c # s) =
     (if c = 125 \<and> starts_with ticks (dropWhile is_space s)
      then Some (c # takeWhile is_space s @ ticks)
      else map_option ((#) c) (lazy_close s))"

definition match_here :: "jsstring \<Rightarrow> jsstring option" where
  "match_here s =
     (if starts_with fence s then
        (let r = drop (length fence) s in
         case dropWhile is_space r of
           [] \<Rightarrow> None
         | c # rest \<Rightarrow>
             if c = 123
             then map_option (\<lambda>m. fence @ takeWhile is_space r @ c # m) (lazy_close rest)
             else None)
      else None)"

fun fence_match :: "jsstring \<Rightarrow> jsstring option" where
  "fence_match [] = match_here []"
| "fence_match (c # s) =
     (case match_here (c # s) of
        Some m \<Rightarrow> Some m
      | None \<Rightarrow> fence_match s)"

text \<open>
  \<^verbatim>\<open>match[0].match(/\{[\s\S]*\}/m)\<close>, line 73: from the first opening brace, greedily,
  to the last closing brace after it.
\<close>

definition brace_match :: "jsstring \<Rightarrow> jsstring option" where
  "brace_match m =
     (case dropWhile (\<lambda>c. c \<noteq> 123) m of
        [] \<Rightarrow> None
      | c # r \<Rightarrow>
          (case rev (dropWhile (\<lambda>d. d \<noteq> 125) (rev r)) of
             [] \<Rightarrow> None
           | inner \<Rightarrow> Some (c # inner)))"

subsection \<open>\<^verbatim>\<open>String.prototype.replace\<close> with a string pattern\<close>

text \<open>
  \<^verbatim>\<open>body.replace(pattern, replacement)\<close> with two strings, line 93: the first occurrence
  of the pattern is replaced, and the replacement is a template in which \<^verbatim>\<open>$$\<close> stands
  for a dollar sign, \<^verbatim>\<open>$&\<close> for the matched text, \<^verbatim>\<open>$`\<close> for the text before the match
  and \<^verbatim>\<open>$'\<close> for the text after it. A string pattern has no capture groups, so every
  other \<^verbatim>\<open>$\<close> stands for itself. A text without the pattern is returned as it is.
\<close>

fun split_first :: "jsstring \<Rightarrow> jsstring \<Rightarrow> (jsstring \<times> jsstring) option" where
  "split_first pat [] = (if pat = [] then Some ([], []) else None)"
| "split_first pat (c # s) =
     (if starts_with pat (c # s) then Some ([], drop (length pat) (c # s))
      else map_option (\<lambda>(pre, post). (c # pre, post)) (split_first pat s))"

fun substitution :: "jsstring \<Rightarrow> jsstring \<Rightarrow> jsstring \<Rightarrow> jsstring \<Rightarrow> jsstring" where
  "substitution matched pre post (c # d # r) =
     (if c = 36 then
        (if d = 36 then 36 # substitution matched pre post r
         else if d = 38 then matched @ substitution matched pre post r
         else if d = 96 then pre @ substitution matched pre post r
         else if d = 39 then post @ substitution matched pre post r
         else c # substitution matched pre post (d # r))
      else c # substitution matched pre post (d # r))"
| "substitution matched pre post r = r"

definition replace :: "jsstring \<Rightarrow> jsstring \<Rightarrow> jsstring \<Rightarrow> jsstring" where
  "replace s pat rep =
     (case split_first pat s of
        None \<Rightarrow> s
      | Some (pre, post) \<Rightarrow> pre @ substitution pat pre post rep @ post)"

section \<open>JSON\<close>

text \<open>
  The values \<^verbatim>\<open>JSON.parse\<close> builds. An object is the list of its own properties in the
  order in which JavaScript enumerates them. A number written as an integer of magnitude
  at most \<open>2^53\<close> is that integer, which a double holds exactly and
  \<^verbatim>\<open>JSON.stringify\<close> prints in plain digits. Every other number is carried as the text
  it was written with. The double that text denotes is floating point: what JavaScript
  prints for it, and whether it is zero, are functions of the text that the worker is
  given (\<open>number_text\<close> and \<open>number_is_zero\<close> below).
\<close>

datatype json =
    JNull
  | JBool bool
  | JNum int
  | JNumOther jsstring
  | JStr jsstring
  | JArr "json list"
  | JObj "(jsstring \<times> json) list"

subsection \<open>\<^verbatim>\<open>JSON.parse\<close>: the tokens\<close>

datatype tok =
    TLBrace | TRBrace | TLBrack | TRBrack | TColon | TComma
  | TStr jsstring | TNum jsstring | TTrue | TFalse | TNull

definition is_digit :: "nat \<Rightarrow> bool" where
  "is_digit c \<longleftrightarrow> 48 \<le> c \<and> c \<le> 57"

definition hex_val :: "nat \<Rightarrow> nat option" where
  "hex_val c =
     (if 48 \<le> c \<and> c \<le> 57 then Some (c - 48)
      else if 65 \<le> c \<and> c \<le> 70 then Some (c - 55)
      else if 97 \<le> c \<and> c \<le> 102 then Some (c - 87)
      else None)"

text \<open>The character after a backslash, other than \<^verbatim>\<open>u\<close>, and the code unit it stands for.\<close>

definition escape_char :: "nat \<Rightarrow> nat option" where
  "escape_char e =
     (if e = 34 \<or> e = 92 \<or> e = 47 then Some e
      else if e = 98 then Some 8
      else if e = 102 then Some 12
      else if e = 110 then Some 10
      else if e = 114 then Some 13
      else if e = 116 then Some 9
      else None)"

text \<open>
  The rest of a string after its opening quote: the code units of the string and the
  text after the closing quote.
\<close>

fun lex_string :: "jsstring \<Rightarrow> (jsstring \<times> jsstring) option" where
  "lex_string [] = None"
| "lex_string (c # s) =
     (if c = 34 then Some ([], s)
      else if c = 92 then
        (case s of
           [] \<Rightarrow> None
         | e # s' \<Rightarrow>
             if e = 117 then
               (case s' of
                  h1 # h2 # h3 # h4 # s'' \<Rightarrow>
                    (case (hex_val h1, hex_val h2, hex_val h3, hex_val h4) of
                       (Some a, Some b, Some x, Some y) \<Rightarrow>
                         map_option (\<lambda>(str, rest). ((((a * 16 + b) * 16 + x) * 16 + y) # str, rest))
                           (lex_string s'')
                     | _ \<Rightarrow> None)
                | _ \<Rightarrow> None)
             else
               (case escape_char e of
                  None \<Rightarrow> None
                | Some x \<Rightarrow> map_option (\<lambda>(str, rest). (x # str, rest)) (lex_string s')))
      else if c < 32 then None
      else map_option (\<lambda>(str, rest). (c # str, rest)) (lex_string s))"

text \<open>The fraction and the exponent of a number, each optional.\<close>

definition lex_frac :: "jsstring \<Rightarrow> (jsstring \<times> jsstring) option" where
  "lex_frac s =
     (case s of
        [] \<Rightarrow> Some ([], [])
      | c # r \<Rightarrow>
          if c = 46 then
            (if takeWhile is_digit r = [] then None
             else Some (c # takeWhile is_digit r, dropWhile is_digit r))
          else Some ([], s))"

definition lex_exp :: "jsstring \<Rightarrow> (jsstring \<times> jsstring) option" where
  "lex_exp s =
     (case s of
        [] \<Rightarrow> Some ([], [])
      | c # r \<Rightarrow>
          if c = 101 \<or> c = 69 then
            (let sg = (case r of [] \<Rightarrow> [] | x # r' \<Rightarrow> if x = 43 \<or> x = 45 then [x] else []);
                 r1 = drop (length sg) r
             in if takeWhile is_digit r1 = [] then None
                else Some (c # sg @ takeWhile is_digit r1, dropWhile is_digit r1))
          else Some ([], s))"

text \<open>A number: its text and the text after it.\<close>

definition lex_number :: "jsstring \<Rightarrow> (jsstring \<times> jsstring) option" where
  "lex_number s =
     (let sg = (if starts_with [45] s then [45] else []);
          s1 = drop (length sg) s
      in case s1 of
           [] \<Rightarrow> None
         | d # s2 \<Rightarrow>
             if \<not> is_digit d then None
             else
               (let ip = (if d = 48 then [d] else d # takeWhile is_digit s2);
                    s3 = (if d = 48 then s2 else dropWhile is_digit s2)
                in case lex_frac s3 of
                     None \<Rightarrow> None
                   | Some (fp, s4) \<Rightarrow>
                       (case lex_exp s4 of
                          None \<Rightarrow> None
                        | Some (ep, s5) \<Rightarrow> Some (sg @ ip @ fp @ ep, s5))))"

lemma lex_string_shorter:
  "lex_string s = Some (str, rest) \<Longrightarrow> length rest < length s"
proof (induction s arbitrary: str rest rule: lex_string.induct)
  case 1
  then show ?case by simp
next
  case (2 c s)
  show ?case
  proof (cases "c = 34")
    case True
    then show ?thesis using "2.prems" by auto
  next
    case False
    show ?thesis
    proof (cases "c = 92")
      case True
      show ?thesis
      proof (cases s)
        case Nil
        then show ?thesis using "2.prems" True by simp
      next
        case (Cons e s')
        show ?thesis
        proof (cases "e = 117")
          case u: True
          show ?thesis
            using "2.prems" "2.IH"(1) [OF False True Cons u] True Cons u
            by (fastforce split: list.splits option.splits)
        next
          case nu: False
          show ?thesis
            using "2.prems" "2.IH"(2) [OF False True Cons nu] True Cons nu
            by (fastforce split: option.splits)
        qed
      qed
    next
      case nb: False
      show ?thesis
        using "2.prems" "2.IH"(3) [OF False nb] False nb
        by (fastforce split: if_splits)
    qed
  qed
qed

lemma lex_frac_shorter: "lex_frac s = Some (fp, rest) \<Longrightarrow> length rest \<le> length s"
  by (auto simp: lex_frac_def length_dropWhile_le le_SucI split: list.splits if_splits)

lemma lex_exp_shorter:
  assumes "lex_exp s = Some (ep, rest)"
  shows "length rest \<le> length s"
proof (cases s)
  case Nil
  then show ?thesis using assms by (simp add: lex_exp_def)
next
  case (Cons c r)
  show ?thesis
  proof (cases "c = 101 \<or> c = 69")
    case True
    define n where "n = length (case r of [] \<Rightarrow> [] | x # r' \<Rightarrow> if x = 43 \<or> x = 45 then [x] else [])"
    have "lex_exp s =
            (if takeWhile is_digit (drop n r) = [] then None
             else Some (c # (case r of [] \<Rightarrow> [] | x # r' \<Rightarrow> if x = 43 \<or> x = 45 then [x] else [])
                          @ takeWhile is_digit (drop n r), dropWhile is_digit (drop n r)))"
      unfolding lex_exp_def Cons n_def Let_def using True by simp
    then have "rest = dropWhile is_digit (drop n r)"
      using assms by (simp split: if_splits)
    moreover have "length (dropWhile is_digit (drop n r)) \<le> length (drop n r)"
      by (rule length_dropWhile_le)
    ultimately show ?thesis using Cons by simp
  next
    case False
    then have "lex_exp s = Some ([], s)"
      unfolding lex_exp_def Cons by simp
    then show ?thesis using assms by simp
  qed
qed

lemma lex_number_shorter:
  assumes "lex_number s = Some (lexeme, rest)"
  shows "length rest < length s"
proof -
  let ?sg = "if starts_with [45] s then [45::nat] else []"
  obtain d s2 where s1: "drop (length ?sg) s = d # s2"
    using assms by (auto simp: lex_number_def Let_def split: list.splits)
  let ?s3 = "if d = 48 then s2 else dropWhile is_digit s2"
  obtain fp s4 where f: "lex_frac ?s3 = Some (fp, s4)"
    using assms s1 by (auto simp: lex_number_def Let_def split: list.splits if_splits option.splits)
  obtain ep where e: "lex_exp s4 = Some (ep, rest)"
    using assms s1 f by (auto simp: lex_number_def Let_def split: list.splits if_splits option.splits)
  have "length rest \<le> length s4" using e by (rule lex_exp_shorter)
  also have "\<dots> \<le> length ?s3" using f by (rule lex_frac_shorter)
  also have "\<dots> \<le> length s2" by (simp add: length_dropWhile_le)
  also have "\<dots> < length (d # s2)" by simp
  also have "\<dots> \<le> length s" unfolding s1 [symmetric] by simp
  finally show ?thesis .
qed

function lex :: "jsstring \<Rightarrow> tok list option" where
  "lex [] = Some []"
| "lex (c # s) =
     (if c = 32 \<or> c = 9 \<or> c = 10 \<or> c = 13 then lex s
      else if c = 123 then map_option ((#) TLBrace) (lex s)
      else if c = 125 then map_option ((#) TRBrace) (lex s)
      else if c = 91 then map_option ((#) TLBrack) (lex s)
      else if c = 93 then map_option ((#) TRBrack) (lex s)
      else if c = 58 then map_option ((#) TColon) (lex s)
      else if c = 44 then map_option ((#) TComma) (lex s)
      else if c = 34 then
        (case lex_string s of
           None \<Rightarrow> None
         | Some (str, rest) \<Rightarrow> map_option ((#) (TStr str)) (lex rest))
      else if c = 45 \<or> is_digit c then
        (case lex_number (c # s) of
           None \<Rightarrow> None
         | Some (lexeme, rest) \<Rightarrow> map_option ((#) (TNum lexeme)) (lex rest))
      else if starts_with (js ''true'') (c # s) then map_option ((#) TTrue) (lex (drop 3 s))
      else if starts_with (js ''false'') (c # s) then map_option ((#) TFalse) (lex (drop 4 s))
      else if starts_with (js ''null'') (c # s) then map_option ((#) TNull) (lex (drop 3 s))
      else None)"
  by pat_completeness auto
termination
proof (relation "measure length", goal_cases)
  case 1
  show ?case by simp
next
  case (9 c s x2 x y)
  then show ?case using lex_string_shorter [of s x y] by simp
next
  case (10 c s x2 x y)
  then show ?case using lex_number_shorter [of "c # s" x y] by simp
qed (simp_all add: less_Suc_eq_le)

subsection \<open>\<^verbatim>\<open>JSON.parse\<close>: the values\<close>

definition digits_val :: "jsstring \<Rightarrow> nat" where
  "digits_val ds = foldl (\<lambda>a c. a * 10 + (c - 48)) 0 ds"

definition num_of_lexeme :: "jsstring \<Rightarrow> json" where
  "num_of_lexeme l =
     (let ds = (if starts_with [45] l then tl l else l) in
      if list_all is_digit ds \<and> digits_val ds \<le> 2 ^ 53
      then JNum (if starts_with [45] l then - int (digits_val ds) else int (digits_val ds))
      else JNumOther l)"

text \<open>
  The own properties of an object are enumerated with the array indices first, in
  ascending order, and the other keys after them in the order of their creation. A
  member whose key the object already has replaces the value and keeps the place.
\<close>

definition is_array_index :: "jsstring \<Rightarrow> bool" where
  "is_array_index k \<longleftrightarrow>
     k \<noteq> [] \<and> list_all is_digit k \<and> (hd k \<noteq> 48 \<or> length k = 1) \<and> digits_val k \<le> 4294967294"

fun ins_index :: "jsstring \<Rightarrow> json \<Rightarrow> (jsstring \<times> json) list \<Rightarrow> (jsstring \<times> json) list" where
  "ins_index k v [] = [(k, v)]"
| "ins_index k v ((k', v') # r) =
     (if is_array_index k' \<and> digits_val k' < digits_val k then (k', v') # ins_index k v r
      else (k, v) # (k', v') # r)"

definition obj_define :: "(jsstring \<times> json) list \<Rightarrow> jsstring \<Rightarrow> json \<Rightarrow> (jsstring \<times> json) list" where
  "obj_define kvs k v =
     (if k \<in> fst ` set kvs then map (\<lambda>(k', v'). if k' = k then (k', v) else (k', v')) kvs
      else if is_array_index k then ins_index k v kvs
      else kvs @ [(k, v)])"

definition obj_build :: "(jsstring \<times> json) list \<Rightarrow> (jsstring \<times> json) list" where
  "obj_build members = foldl (\<lambda>kvs (k, v). obj_define kvs k v) [] members"

text \<open>
  The parser reads the tokens from left to right with a stack of the containers that are
  open: an array with its elements so far, an object with its members so far, and an
  object whose last key awaits its value.
\<close>

datatype frame =
    FArr "json list"
  | FObj "(jsstring \<times> json) list"
  | FKey "(jsstring \<times> json) list" jsstring

datatype pstate = PValue | PFirst | PKey | PColon | PAfter | PDone json

fun finish :: "json \<Rightarrow> frame list \<Rightarrow> (pstate \<times> frame list) option" where
  "finish v [] = Some (PDone v, [])"
| "finish v (FArr items # st) = Some (PAfter, FArr (items @ [v]) # st)"
| "finish v (FKey members k # st) = Some (PAfter, FObj (members @ [(k, v)]) # st)"
| "finish v (FObj members # st) = None"

fun value_start :: "tok \<Rightarrow> frame list \<Rightarrow> (pstate \<times> frame list) option" where
  "value_start TLBrace st = Some (PFirst, FObj [] # st)"
| "value_start TLBrack st = Some (PFirst, FArr [] # st)"
| "value_start (TStr s) st = finish (JStr s) st"
| "value_start (TNum l) st = finish (num_of_lexeme l) st"
| "value_start TTrue st = finish (JBool True) st"
| "value_start TFalse st = finish (JBool False) st"
| "value_start TNull st = finish JNull st"
| "value_start _ st = None"

fun pstep :: "pstate \<Rightarrow> frame list \<Rightarrow> tok \<Rightarrow> (pstate \<times> frame list) option" where
  "pstep PValue st t = value_start t st"
| "pstep PFirst (FArr items # st) t =
     (if t = TRBrack then finish (JArr items) st else value_start t (FArr items # st))"
| "pstep PFirst (FObj members # st) t =
     (case t of
        TRBrace \<Rightarrow> finish (JObj (obj_build members)) st
      | TStr k \<Rightarrow> Some (PColon, FKey members k # st)
      | _ \<Rightarrow> None)"
| "pstep PKey (FObj members # st) t =
     (case t of TStr k \<Rightarrow> Some (PColon, FKey members k # st) | _ \<Rightarrow> None)"
| "pstep PColon st t = (if t = TColon then Some (PValue, st) else None)"
| "pstep PAfter (FArr items # st) t =
     (if t = TComma then Some (PValue, FArr items # st)
      else if t = TRBrack then finish (JArr items) st
      else None)"
| "pstep PAfter (FObj members # st) t =
     (if t = TComma then Some (PKey, FObj members # st)
      else if t = TRBrace then finish (JObj (obj_build members)) st
      else None)"
| "pstep _ _ _ = None"

fun parse_toks :: "pstate \<Rightarrow> frame list \<Rightarrow> tok list \<Rightarrow> json option" where
  "parse_toks ps st [] = (case ps of PDone v \<Rightarrow> Some v | _ \<Rightarrow> None)"
| "parse_toks ps st (t # ts) =
     (case pstep ps st t of
        None \<Rightarrow> None
      | Some (ps', st') \<Rightarrow> parse_toks ps' st' ts)"

text \<open>\<^verbatim>\<open>JSON.parse(text)\<close>: \<open>None\<close> is the \<^verbatim>\<open>SyntaxError\<close> it throws.\<close>

definition JSON_parse :: "jsstring \<Rightarrow> json option" where
  "JSON_parse s =
     (case lex s of
        None \<Rightarrow> None
      | Some ts \<Rightarrow> parse_toks PValue [] ts)"

subsection \<open>\<^verbatim>\<open>JSON.stringify\<close> with an indentation of two spaces\<close>

definition hex_digit :: "nat \<Rightarrow> nat" where
  "hex_digit n = (if n < 10 then 48 + n else 87 + n)"

definition unicode_escape :: "nat \<Rightarrow> jsstring" where
  "unicode_escape c =
     [92, 117, hex_digit (c div 4096 mod 16), hex_digit (c div 256 mod 16),
      hex_digit (c div 16 mod 16), hex_digit (c mod 16)]"

definition quote_char :: "nat \<Rightarrow> jsstring" where
  "quote_char c =
     (if c = 8 then [92, 98]
      else if c = 9 then [92, 116]
      else if c = 10 then [92, 110]
      else if c = 12 then [92, 102]
      else if c = 13 then [92, 114]
      else if c = 34 then [92, 34]
      else if c = 92 then [92, 92]
      else if c < 32 then unicode_escape c
      else [c])"

definition is_high :: "nat \<Rightarrow> bool" where
  "is_high c \<longleftrightarrow> 55296 \<le> c \<and> c \<le> 56319"

definition is_low :: "nat \<Rightarrow> bool" where
  "is_low c \<longleftrightarrow> 56320 \<le> c \<and> c \<le> 57343"

text \<open>A surrogate that is not half of a pair is escaped; a pair is written as it is.\<close>

fun quote_chars :: "jsstring \<Rightarrow> jsstring" where
  "quote_chars [] = []"
| "quote_chars [c] = (if is_high c \<or> is_low c then unicode_escape c else quote_char c)"
| "quote_chars (c # d # s) =
     (if is_high c then
        (if is_low d then c # d # quote_chars s else unicode_escape c @ quote_chars (d # s))
      else if is_low c then unicode_escape c @ quote_chars (d # s)
      else quote_char c @ quote_chars (d # s))"

definition quote :: "jsstring \<Rightarrow> jsstring" where
  "quote s = 34 # quote_chars s @ [34]"

fun digits_of :: "nat \<Rightarrow> jsstring" where
  "digits_of n = (if n < 10 then [48 + n] else digits_of (n div 10) @ [48 + n mod 10])"

definition show_int :: "int \<Rightarrow> jsstring" where
  "show_int i = (if i < 0 then 45 # digits_of (nat (- i)) else digits_of (nat i))"

fun join :: "jsstring \<Rightarrow> jsstring list \<Rightarrow> jsstring" where
  "join sep [] = []"
| "join sep [x] = x"
| "join sep (x # y # r) = x @ sep @ join sep (y # r)"

text \<open>
  \<open>stringify nt ind v\<close> is the text of \<open>v\<close> at the indentation \<open>ind\<close>, where \<open>nt\<close> gives
  what is printed for a number carried as text.
\<close>

fun stringify :: "(jsstring \<Rightarrow> jsstring) \<Rightarrow> jsstring \<Rightarrow> json \<Rightarrow> jsstring" where
  "stringify nt ind JNull = js ''null''"
| "stringify nt ind (JBool b) = (if b then js ''true'' else js ''false'')"
| "stringify nt ind (JNum n) = show_int n"
| "stringify nt ind (JNumOther l) = nt l"
| "stringify nt ind (JStr s) = quote s"
| "stringify nt ind (JArr items) =
     (if items = [] then js ''[]''
      else [91, 10] @ ind @ [32, 32]
         @ join ([44, 10] @ ind @ [32, 32]) (map (stringify nt (ind @ [32, 32])) items)
         @ [10] @ ind @ [93])"
| "stringify nt ind (JObj kvs) =
     (if kvs = [] then js ''{}''
      else [123, 10] @ ind @ [32, 32]
         @ join ([44, 10] @ ind @ [32, 32])
             (map (\<lambda>(k, v). quote k @ [58, 32] @ stringify nt (ind @ [32, 32]) v) kvs)
         @ [10] @ ind @ [125])"

text \<open>\<^verbatim>\<open>JSON.stringify(v, null, 2)\<close>.\<close>

definition JSON_stringify :: "(jsstring \<Rightarrow> jsstring) \<Rightarrow> json \<Rightarrow> jsstring" where
  "JSON_stringify nt v = stringify nt [] v"

text \<open>
  Truthiness of a value, as \<^verbatim>\<open>if (feedUrl)\<close> tests it, where \<open>nz\<close> says whether a
  number carried as text denotes zero.
\<close>

fun truthy :: "(jsstring \<Rightarrow> bool) \<Rightarrow> json \<Rightarrow> bool" where
  "truthy nz JNull = False"
| "truthy nz (JBool b) = b"
| "truthy nz (JNum n) = (n \<noteq> 0)"
| "truthy nz (JNumOther l) = (\<not> nz l)"
| "truthy nz (JStr s) = (s \<noteq> [])"
| "truthy nz (JArr items) = True"
| "truthy nz (JObj kvs) = True"

text \<open>
  Whether the conversion of a value to a string throws, as a template literal with
  \<^verbatim>\<open>${v}\<close> makes it. An object is converted by its \<^verbatim>\<open>toString\<close>, then by its
  \<^verbatim>\<open>valueOf\<close>: an object of \<^verbatim>\<open>JSON.parse\<close> inherits both, and the inherited
  \<^verbatim>\<open>toString\<close> returns a string; an own property of that name is no function, so it
  hides the inherited one, the inherited \<^verbatim>\<open>valueOf\<close> returns the object itself, an own
  one is no function either, and the conversion throws a \<^verbatim>\<open>TypeError\<close>. An array is
  converted by joining the conversions of its elements, so it throws when one of them
  does. No other value throws.
\<close>

fun to_string_throws :: "json \<Rightarrow> bool" where
  "to_string_throws (JObj kvs) = (js ''toString'' \<in> fst ` set kvs)"
| "to_string_throws (JArr items) = list_ex to_string_throws items"
| "to_string_throws _ = False"

section \<open>Effects of the worker: results, exceptions and the event trace\<close>

text \<open>
  The worker of \<^verbatim>\<open>src/main.js\<close> is asynchronous JavaScript on one thread. Every
  \<^verbatim>\<open>await\<close> of the file is awaited before the next statement runs, so a function of
  the file is modelled as a state transformer over the trace of the effects it has had so
  far: the calls of the logger, of the error handler, of the HTTP client, of the issue
  update and of the process exit, oldest first.
\<close>

datatype exn = NetworkError | SyntaxError | TypeError | DateError | UpdateError | ListError | Failure nat

datatype level = Info | Warn | Error

datatype event =
    Logger level string
  | HandleError exn string
  | AxiosGet json
  | IssuesUpdate nat jsstring
  | ProcessExit nat
  | OpStart
  | OpEnd

text \<open>
  A JavaScript computation returns, throws, or leaves the model: \<open>Unmodelled\<close> marks the
  inputs on which this development says nothing. No \<^verbatim>\<open>catch\<close> of the model catches it.
\<close>

datatype 'a res = Return 'a | Throw exn | Unmodelled

type_synonym 'a js = "event list \<Rightarrow> 'a res \<times> event list"

definition js_return :: "'a \<Rightarrow> 'a js" where
  "js_return x t = (Return x, t)"

definition js_bind :: "'a js \<Rightarrow> ('a \<Rightarrow> 'b js) \<Rightarrow> 'b js" where
  "js_bind m f t =
     (case m t of
        (Return x, t') \<Rightarrow> f x t'
      | (Throw e, t') \<Rightarrow> (Throw e, t')
      | (Unmodelled, t') \<Rightarrow> (Unmodelled, t'))"

definition try_catch :: "'a js \<Rightarrow> (exn \<Rightarrow> 'a js) \<Rightarrow> 'a js" where
  "try_catch m h t =
     (case m t of
        (Throw e, t') \<Rightarrow> h e t'
      | (r, t') \<Rightarrow> (r, t'))"

definition emit :: "event \<Rightarrow> unit js" where
  "emit ev t = (Return (), t @ [ev])"

definition logger :: "level \<Rightarrow> string \<Rightarrow> unit js" where
  "logger lv msg = emit (Logger lv msg)"

text \<open>
  Modelled from the spec: \<^verbatim>\<open>handleError\<close> of \<^verbatim>\<open>utils.js\<close>, which is not among the
  sources. The spec has every handled failure logged; both call sites of
  \<^verbatim>\<open>main.js\<close> go on to a \<^verbatim>\<open>return\<close> after it, so it returns normally.
\<close>

definition handleError :: "exn \<Rightarrow> string \<Rightarrow> unit js" where
  "handleError e ctx = emit (HandleError e ctx)"

text \<open>
  What a trace shows: the entries of the logger and of the error handler, which touch
  nothing outside the log, and the updates of issues, in order.
\<close>

definition is_log :: "event \<Rightarrow> bool" where
  "is_log ev = (case ev of Logger lv msg \<Rightarrow> True | HandleError e ctx \<Rightarrow> True | _ \<Rightarrow> False)"

definition updates :: "event list \<Rightarrow> (nat \<times> jsstring) list" where
  "updates t = concat (map (\<lambda>ev. case ev of IssuesUpdate n b \<Rightarrow> [(n, b)] | _ \<Rightarrow> []) t)"

section \<open>RetryingFetcher\<close>

text \<open>
  Modelled from the spec: \<^verbatim>\<open>withRetry\<close> of \<^verbatim>\<open>utils.js\<close>, which is not among the
  sources. Section 4.2: the operation is attempted up to \<open>maxAttempts\<close> times, one attempt
  after the other; a failed attempt is logged and, when attempts remain, the next one
  starts at once; the first attempt that does not throw gives the result; when all
  attempts fail the last error is surfaced. The spec has \<open>maxAttempts \<ge> 1\<close> and says
  nothing of zero attempts, which is left outside the model.
\<close>

fun withRetry :: "'a js \<Rightarrow> nat \<Rightarrow> 'a js" where
  "withRetry operation 0 t = (Unmodelled, t)"
| "withRetry operation (Suc n) t =
     (case operation t of
        (Throw e, t') \<Rightarrow>
          (let t'' = t' @ [Logger Warn ''attempt failed''] in
           if n = 0 then (Throw e, t'') else withRetry operation n t'')
      | (r, t') \<Rightarrow> (r, t'))"

text \<open>
  An operation under observation: each invocation records its start and its end in the
  trace, and its outcome is a function of the number of invocations before it.
\<close>

definition invocations :: "event list \<Rightarrow> nat" where
  "invocations t = length (filter (\<lambda>ev. ev = OpStart) t)"

definition op_events :: "event list \<Rightarrow> event list" where
  "op_events t = filter (\<lambda>ev. ev = OpStart \<or> ev = OpEnd) t"

definition scripted :: "(nat \<Rightarrow> 'a res) \<Rightarrow> 'a js" where
  "scripted outcome t = (outcome (invocations t), t @ [OpStart, OpEnd])"

section \<open>ConcurrencyPool\<close>

text \<open>
  Modelled from the spec: \<^verbatim>\<open>ConcurrencyPool\<close> of \<^verbatim>\<open>utils.js\<close>, which is not among
  the sources. Section 4.4: the bound is fixed at construction; the pool keeps the tasks
  that are running and a queue of submitted tasks; \<^verbatim>\<open>add\<close> enqueues the task and, while
  fewer than \<open>limit\<close> tasks are running, starts queued tasks in submission order; when a
  running task completes, by success or by failure, exactly one more queued task, the
  oldest, is started; the promise of \<^verbatim>\<open>add\<close> settles when its task has completed, with
  the outcome of the task. A task has no identity beyond its position in the submission
  order (section 3), so a task is named by that position.
\<close>

record pool =
  limit :: nat
  submitted :: nat
  queue :: "nat list"
  running :: "nat list"
  started :: "nat list"
  settled :: "(nat \<times> bool) list"

definition new_pool :: "nat \<Rightarrow> pool" where
  "new_pool lim = \<lparr>limit = lim, submitted = 0, queue = [], running = [], started = [], settled = []\<rparr>"

fun start_queued :: "nat \<Rightarrow> nat list \<Rightarrow> nat list \<Rightarrow> nat list \<Rightarrow> nat list \<times> nat list \<times> nat list" where
  "start_queued lim rn sta [] = (rn, sta, [])"
| "start_queued lim rn sta (task # q) =
     (if length rn < lim then start_queued lim (rn @ [task]) (sta @ [task]) q
      else (rn, sta, task # q))"

definition add :: "pool \<Rightarrow> pool" where
  "add p =
     (case start_queued (limit p) (running p) (started p) (queue p @ [submitted p]) of
        (rn, sta, q) \<Rightarrow>
          p\<lparr>submitted := Suc (submitted p), queue := q, running := rn, started := sta\<rparr>)"

definition complete :: "pool \<Rightarrow> nat \<Rightarrow> bool \<Rightarrow> pool" where
  "complete p task ok =
     (if task \<in> set (running p) then
        (let p1 = p\<lparr>running := remove1 task (running p), settled := settled p @ [(task, ok)]\<rparr>
         in case queue p1 of
              [] \<Rightarrow> p1
            | next_task # q \<Rightarrow>
                p1\<lparr>queue := q, running := running p1 @ [next_task],
                   started := started p1 @ [next_task]\<rparr>)
      else p)"

datatype pool_event = Add | Complete nat bool

fun pool_step :: "pool \<Rightarrow> pool_event \<Rightarrow> pool" where
  "pool_step p Add = add p"
| "pool_step p (Complete task ok) = complete p task ok"

definition run_pool :: "nat \<Rightarrow> pool_event list \<Rightarrow> pool" where
  "run_pool lim evs = foldl pool_step (new_pool lim) evs"

text \<open>The tasks that have not completed, and a schedule of completions of running tasks.\<close>

definition outstanding :: "pool \<Rightarrow> nat" where
  "outstanding p = length (queue p) + length (running p)"

fun valid_completions :: "pool \<Rightarrow> (nat \<times> bool) list \<Rightarrow> bool" where
  "valid_completions p [] = True"
| "valid_completions p ((task, ok) # cs) =
     (task \<in> set (running p) \<and> valid_completions (complete p task ok) cs)"

fun complete_all :: "pool \<Rightarrow> (nat \<times> bool) list \<Rightarrow> pool" where
  "complete_all p [] = p"
| "complete_all p ((task, ok) # cs) = complete_all (complete p task ok) cs"

definition pool_inv :: "pool \<Rightarrow> bool" where
  "pool_inv p \<longleftrightarrow>
     length (running p) \<le> limit p
   \<and> (queue p = [] \<or> length (running p) = limit p)
   \<and> started p @ queue p = [0..<submitted p]
   \<and> distinct (running p @ map fst (settled p))
   \<and> set (running p) \<union> fst ` set (settled p) = set (started p)"

section \<open>FeedNormalizer: \<^verbatim>\<open>parseFeed\<close>\<close>

text \<open>
  The document \<^verbatim>\<open>cheerio.load(response.data, { xmlMode: true })\<close> gives is taken as it
  is: a forest of elements with their attributes, of texts and of comments. The selectors
  the worker uses are modelled on it; element names are compared as they are written, as
  the XML mode does.
\<close>

datatype node =
    Element jsstring "(jsstring \<times> jsstring) list" "node list"
  | Text jsstring
  | Comment jsstring

fun descendants :: "node \<Rightarrow> node list" where
  "descendants (Element nm attrs kids) = concat (map (\<lambda>k. k # descendants k) kids)"
| "descendants (Text s) = []"
| "descendants (Comment s) = []"

text \<open>\<^verbatim>\<open>.text()\<close>: the texts below a node, in document order.\<close>

fun text_of :: "node \<Rightarrow> jsstring" where
  "text_of (Element nm attrs kids) = concat (map text_of kids)"
| "text_of (Text s) = s"
| "text_of (Comment s) = []"

definition is_tag :: "jsstring \<Rightarrow> node \<Rightarrow> bool" where
  "is_tag nm n = (case n of Element m attrs kids \<Rightarrow> m = nm | _ \<Rightarrow> False)"

definition has_attr :: "jsstring \<Rightarrow> jsstring \<Rightarrow> node \<Rightarrow> bool" where
  "has_attr a v n = (case n of Element m attrs kids \<Rightarrow> map_of attrs a = Some v | _ \<Rightarrow> False)"

text \<open>\<^verbatim>\<open>$item.find(selector)\<close>: the descendants that match, in document order.\<close>

definition dom_find :: "(node \<Rightarrow> bool) \<Rightarrow> node \<Rightarrow> node list" where
  "dom_find sel el = filter sel (descendants el)"

text \<open>\<^verbatim>\<open>.first().text()\<close>: the text of the first node selected, empty when there is none.\<close>

definition first_text :: "node list \<Rightarrow> jsstring" where
  "first_text sel = (case sel of [] \<Rightarrow> [] | n # ns \<Rightarrow> text_of n)"

text \<open>
  \<^verbatim>\<open>.attr(name)\<close>: the attribute of the first node selected; \<open>None\<close> is
  \<^verbatim>\<open>undefined\<close>, for an empty selection and for an element without the attribute.
\<close>

definition attr :: "jsstring \<Rightarrow> node list \<Rightarrow> jsstring option" where
  "attr a sel =
     (case sel of
        [] \<Rightarrow> None
      | n # ns \<Rightarrow> (case n of Element m attrs kids \<Rightarrow> map_of attrs a | _ \<Rightarrow> None))"

text \<open>
  \<^verbatim>\<open>$('feed > entry')\<close> and \<^verbatim>\<open>$('rss > channel > item')\<close>: the elements of the document
  whose name and whose ancestors' names, from the parent upwards, end the chain.
\<close>

fun walk :: "jsstring list \<Rightarrow> node \<Rightarrow> (jsstring list \<times> node) list" where
  "walk anc (Element nm attrs kids) =
     (anc, Element nm attrs kids) # concat (map (walk (nm # anc)) kids)"
| "walk anc (Text s) = [(anc, Text s)]"
| "walk anc (Comment s) = [(anc, Comment s)]"

definition select_chain :: "jsstring list \<Rightarrow> node list \<Rightarrow> node list" where
  "select_chain chain doc =
     map snd
       (filter
          (\<lambda>(anc, n). case n of
                         Element nm attrs kids \<Rightarrow> take (length chain) (nm # anc) = rev chain
                       | _ \<Rightarrow> False)
          (concat (map (walk []) doc)))"

text \<open>
  \<^verbatim>\<open>items.slice(0, POSTS_COUNT)\<close>: a negative end counts from the end of the list.
\<close>

definition js_slice :: "int \<Rightarrow> 'a list \<Rightarrow> 'a list" where
  "js_slice e xs =
     (if e < 0 then take (nat (max (int (length xs) + e) 0)) xs else take (nat e) xs)"

record post =
  title :: jsstring
  link :: jsstring
  published :: jsstring

record issue =
  number :: nat
  body :: "jsstring option"

datatype fetch_result = Rejected | Loaded "node list"

text \<open>
  What the worker is given. The three constants of lines 7 to 9 are read once from the
  inputs of the action. \<open>axios_get url k\<close> is the outcome of the request for \<open>url\<close> that
  \<open>k\<close> requests came before: \<open>Rejected\<close> when \<^verbatim>\<open>axios.get\<close> rejects (a network error,
  the timeout of five seconds, an error status) or the response cannot be loaded, and the
  loaded document otherwise. \<open>formatDate\<close> is the function of that name of
  \<^verbatim>\<open>utils.js\<close>, not among the sources: it is a parameter, and \<open>Inl\<close> is an exception it
  throws. \<open>getIssues\<close> and \<open>issues_update\<close> are the two calls of the issue manager: the
  list of the issues, \<open>None\<close> when listing fails, and whether the update of an issue
  succeeds. \<open>number_text\<close> and \<open>number_is_zero\<close> are the conversions of the JavaScript
  engine for a number that is not an integer of magnitude at most \<open>2^53\<close>: what is printed
  for the number written as a text, and whether that number is zero.
\<close>

record env =
  RETRY_TIMES :: nat
  POSTS_COUNT :: int
  DATE_FORMAT :: jsstring
  axios_get :: "json \<Rightarrow> nat \<Rightarrow> fetch_result"
  formatDate :: "jsstring \<Rightarrow> jsstring \<Rightarrow> exn + jsstring"
  getIssues :: "issue list option"
  issues_update :: "nat \<Rightarrow> jsstring \<Rightarrow> bool"
  number_text :: "jsstring \<Rightarrow> jsstring"
  number_is_zero :: "jsstring \<Rightarrow> bool"

definition gets :: "event list \<Rightarrow> nat" where
  "gets t = length (filter (\<lambda>ev. case ev of AxiosGet u \<Rightarrow> True | _ \<Rightarrow> False) t)"

definition http_get :: "env \<Rightarrow> json \<Rightarrow> node list js" where
  "http_get env feedUrl t =
     (case axios_get env feedUrl (gets t) of
        Rejected \<Rightarrow> (Throw NetworkError, t @ [AxiosGet feedUrl])
      | Loaded doc \<Rightarrow> (Return doc, t @ [AxiosGet feedUrl]))"

definition format_date :: "env \<Rightarrow> jsstring \<Rightarrow> jsstring js" where
  "format_date env s t =
     (case formatDate env s (DATE_FORMAT env) of
        Inl e \<Rightarrow> (Throw e, t)
      | Inr r \<Rightarrow> (Return r, t))"

text \<open>
  Lines 30 to 40: the title and the link of an item. For RSS the link is the text of the
  first \<^verbatim>\<open>link\<close>; for Atom it is the \<^verbatim>\<open>href\<close> of the first \<^verbatim>\<open>link\<close> with
  \<^verbatim>\<open>rel="alternate"\<close> and, when that is missing or empty, the \<^verbatim>\<open>href\<close> of the first
  \<^verbatim>\<open>link\<close>.
\<close>

definition item_title :: "node \<Rightarrow> jsstring" where
  "item_title el = first_text (dom_find (is_tag (js ''title'')) el)"

definition item_link :: "bool \<Rightarrow> node \<Rightarrow> jsstring option" where
  "item_link isRss el =
     (if isRss then Some (first_text (dom_find (is_tag (js ''link'')) el))
      else
        (case attr (js ''href'')
                (dom_find (\<lambda>n. is_tag (js ''link'') n \<and> has_attr (js ''rel'') (js ''alternate'') n) el) of
           None \<Rightarrow> attr (js ''href'') (dom_find (is_tag (js ''link'')) el)
         | Some l \<Rightarrow>
             if l = [] then attr (js ''href'') (dom_find (is_tag (js ''link'')) el) else Some l))"

definition item_date :: "bool \<Rightarrow> node \<Rightarrow> jsstring" where
  "item_date isRss el =
     first_text (dom_find (is_tag (if isRss then js ''pubDate'' else js ''published'')) el)"

text \<open>The body of the loop of lines 28 to 55, for one item.\<close>

definition extract_post :: "env \<Rightarrow> bool \<Rightarrow> node \<Rightarrow> post list \<Rightarrow> post list js" where
  "extract_post env isRss el posts =
     js_bind (if item_date isRss el \<noteq> [] then format_date env (item_date isRss el) else js_return [])
       (\<lambda>formattedPublished.
          js_bind (logger Info ''Extracted'')
            (\<lambda>_. js_return
                  (case item_link isRss el of
                     None \<Rightarrow> posts
                   | Some l \<Rightarrow>
                       if item_title el \<noteq> [] \<and> l \<noteq> []
                       then posts @ [\<lparr>title = item_title el, link = l, published = formattedPublished\<rparr>]
                       else posts)))"

fun each_item :: "env \<Rightarrow> bool \<Rightarrow> node list \<Rightarrow> post list \<Rightarrow> post list js" where
  "each_item env isRss [] posts = js_return posts"
| "each_item env isRss (el # els) posts =
     js_bind (extract_post env isRss el posts) (each_item env isRss els)"

text \<open>
  A template literal that holds \<^verbatim>\<open>${feedUrl}\<close> converts the value to a string when it
  is evaluated, before the call it is an argument of: lines 59 and 87.
\<close>

definition interpolate :: "json \<Rightarrow> unit js" where
  "interpolate v t = (if to_string_throws v then (Throw TypeError, t) else (Return (), t))"

text \<open>
  The block under \<^verbatim>\<open>try\<close>, lines 14 to 57, and \<^verbatim>\<open>parseFeed\<close> with its \<^verbatim>\<open>catch\<close>,
  whose message of line 59 interpolates the feed URL before the error handler is called.
\<close>

definition feed_items :: "node list \<Rightarrow> bool \<times> node list" where
  "feed_items doc =
     (if select_chain [js ''feed'', js ''entry''] doc = []
      then (select_chain [js ''rss'', js ''channel'', js ''item''] doc \<noteq> [],
            select_chain [js ''rss'', js ''channel'', js ''item''] doc)
      else (False, select_chain [js ''feed'', js ''entry''] doc))"

definition parseFeed_try :: "env \<Rightarrow> json \<Rightarrow> post list js" where
  "parseFeed_try env feedUrl =
     js_bind (http_get env feedUrl)
       (\<lambda>doc. js_bind (logger Info ''Feed URL'')
                (\<lambda>_. each_item env (fst (feed_items doc))
                       (js_slice (POSTS_COUNT env) (snd (feed_items doc))) []))"

definition parseFeed :: "env \<Rightarrow> json \<Rightarrow> post list js" where
  "parseFeed env feedUrl =
     try_catch (parseFeed_try env feedUrl)
       (\<lambda>e. js_bind (interpolate feedUrl)
              (\<lambda>_. js_bind (handleError e ''Error parsing feed'') (\<lambda>_. js_return [])))"

section \<open>DirectiveExtractor and the worker: \<^verbatim>\<open>processIssue\<close> and \<^verbatim>\<open>run\<close>\<close>

definition json_parse :: "jsstring \<Rightarrow> json js" where
  "json_parse s t =
     (case JSON_parse s of
        None \<Rightarrow> (Throw SyntaxError, t)
      | Some v \<Rightarrow> (Return v, t))"

definition json_stringify :: "env \<Rightarrow> json \<Rightarrow> jsstring js" where
  "json_stringify env v = js_return (JSON_stringify (number_text env) v)"

text \<open>
  \<^verbatim>\<open>jsonData.feed\<close>: the own property of an object; reading a property of \<^verbatim>\<open>null\<close>
  throws; no other value has a property of that name.
\<close>

definition get_feed :: "json \<Rightarrow> json option js" where
  "get_feed v t =
     (case v of
        JNull \<Rightarrow> (Throw TypeError, t)
      | JObj kvs \<Rightarrow> (Return (map_of kvs (js ''feed'')), t)
      | _ \<Rightarrow> (Return None, t))"

definition post_json :: "post \<Rightarrow> json" where
  "post_json p =
     JObj [(js ''title'', JStr (title p)), (js ''link'', JStr (link p)),
           (js ''published'', JStr (published p))]"

text \<open>
  \<^verbatim>\<open>jsonData.posts = posts\<close>, line 89. It is reached with a truthy \<^verbatim>\<open>feed\<close> only, so
  with an object.
\<close>

definition set_posts :: "json \<Rightarrow> post list \<Rightarrow> json" where
  "set_posts v posts =
     (case v of
        JObj kvs \<Rightarrow> JObj (obj_define kvs (js ''posts'') (JArr (map post_json posts)))
      | _ \<Rightarrow> v)"

definition directive_span :: "jsstring \<Rightarrow> jsstring option" where
  "directive_span b = (case fence_match b of None \<Rightarrow> None | Some m \<Rightarrow> brace_match m)"

text \<open>
  Lines 84 to 90: the feed of the directive is resolved when its value is truthy. The
  message of line 87 interpolates the value, so a value whose conversion to a string
  throws ends the block before any request.
\<close>

definition resolve_feed :: "env \<Rightarrow> json \<Rightarrow> json js" where
  "resolve_feed env jsonData =
     js_bind (get_feed jsonData)
       (\<lambda>feedUrl.
          case feedUrl of
            None \<Rightarrow> js_return jsonData
          | Some f \<Rightarrow>
              if truthy (number_is_zero env) f then
                js_bind (interpolate f)
                  (\<lambda>_. js_bind (logger Info ''Getting feed data'')
                  (\<lambda>_. js_bind (withRetry (parseFeed env f) (RETRY_TIMES env))
                  (\<lambda>posts. js_return (set_posts jsonData posts))))
              else js_return jsonData)"

definition processIssue_try :: "env \<Rightarrow> issue \<Rightarrow> (json \<times> jsstring) option js" where
  "processIssue_try env issue =
     js_bind (logger Info ''Processing issue'')
       (\<lambda>_. case body issue of
               None \<Rightarrow> js_bind (logger Warn ''no body content, skipping'') (\<lambda>_. js_return None)
             | Some b \<Rightarrow>
                 if b = [] then js_bind (logger Warn ''no body content, skipping'') (\<lambda>_. js_return None)
                 else
                   (case directive_span b of
                      None \<Rightarrow> js_bind (logger Warn ''No JSON content found'') (\<lambda>_. js_return None)
                    | Some span \<Rightarrow>
                        js_bind (logger Info ''Found JSON content'')
                          (\<lambda>_. js_bind (json_parse span)
                          (\<lambda>parsed. js_bind (logger Info ''Got JSON content'')
                          (\<lambda>_. js_bind (resolve_feed env parsed)
                          (\<lambda>jsonData. js_bind (logger Info ''Converted JSON content'')
                          (\<lambda>_. js_bind (json_stringify env jsonData)
                          (\<lambda>txt. js_return (Some (jsonData, replace b span txt))))))))))"

definition processIssue :: "env \<Rightarrow> issue \<Rightarrow> (json \<times> jsstring) option js" where
  "processIssue env issue =
     try_catch (processIssue_try env issue)
       (\<lambda>e. js_bind (handleError e ''Error processing issue'') (\<lambda>_. js_return None))"

definition update_issue :: "env \<Rightarrow> nat \<Rightarrow> jsstring \<Rightarrow> unit js" where
  "update_issue env n b t =
     (if issues_update env n b then (Return (), t @ [IssuesUpdate n b])
      else (Throw UpdateError, t @ [IssuesUpdate n b]))"

text \<open>The task of lines 114 to 126, handed to the pool for one issue.\<close>

definition issue_task :: "env \<Rightarrow> issue \<Rightarrow> unit js" where
  "issue_task env issue =
     js_bind (processIssue env issue)
       (\<lambda>result. case result of
                    None \<Rightarrow> js_return ()
                  | Some (data, newBody) \<Rightarrow>
                      js_bind (update_issue env (number issue) newBody)
                        (\<lambda>_. logger Info ''Updated issue''))"

text \<open>
  Modelled from the spec: \<^verbatim>\<open>pool.add\<close> of \<^verbatim>\<open>utils.js\<close>, which is not among the
  sources, as \<^verbatim>\<open>run\<close> uses it. Section 4.4: the promise of \<^verbatim>\<open>add\<close> settles once the
  task has completed, and a failure of the task is reported to the caller that awaited
  that \<^verbatim>\<open>add\<close>. \<^verbatim>\<open>run\<close> awaits each \<^verbatim>\<open>add\<close> before the next, so the pool, of limit 10, is
  idle at every call: the task starts at once and its outcome is the outcome of the
  awaited call.
\<close>

definition pool_add :: "unit js \<Rightarrow> unit js" where
  "pool_add task = task"

fun run_loop :: "env \<Rightarrow> issue list \<Rightarrow> unit js" where
  "run_loop env [] = js_return ()"
| "run_loop env (issue # rest) =
     js_bind (pool_add (issue_task env issue)) (\<lambda>_. run_loop env rest)"

definition list_issues :: "env \<Rightarrow> issue list js" where
  "list_issues env t =
     (case getIssues env of
        None \<Rightarrow> (Throw ListError, t)
      | Some allIssues \<Rightarrow> (Return allIssues, t))"

definition run :: "env \<Rightarrow> unit js" where
  "run env =
     try_catch
       (js_bind (logger Info ''start'')
          (\<lambda>_. js_bind (list_issues env)
          (\<lambda>allIssues. js_bind (run_loop env allIssues)
          (\<lambda>_. logger Info ''end''))))
       (\<lambda>e. js_bind (logger Error ''Error processing issues'') (\<lambda>_. emit (ProcessExit 1)))"

section \<open>What section 4.1 of the spec has \<^verbatim>\<open>parseFeed\<close> compute\<close>

text \<open>
  The records of a list of items, written as the spec describes them and without the
  trace: the formatted date of an item, empty when the item has none; the record of an
  item, which is emitted only with a title and a link that are not empty; and the records
  of the items in document order. An exception of the date formatter is the result when
  one is thrown. The theorems below compare \<^verbatim>\<open>parseFeed\<close> with these.
\<close>

definition date_text :: "env \<Rightarrow> bool \<Rightarrow> node \<Rightarrow> exn + jsstring" where
  "date_text env isRss el =
     (if item_date isRss el = [] then Inr []
      else formatDate env (item_date isRss el) (DATE_FORMAT env))"

definition post_of :: "bool \<Rightarrow> node \<Rightarrow> jsstring \<Rightarrow> post list" where
  "post_of isRss el d =
     (case item_link isRss el of
        None \<Rightarrow> []
      | Some l \<Rightarrow>
          if item_title el \<noteq> [] \<and> l \<noteq> []
          then [\<lparr>title = item_title el, link = l, published = d\<rparr>]
          else [])"

fun posts_of :: "env \<Rightarrow> bool \<Rightarrow> node list \<Rightarrow> exn + post list" where
  "posts_of env isRss [] = Inr []"
| "posts_of env isRss (el # els) =
     (case date_text env isRss el of
        Inl e \<Rightarrow> Inl e
      | Inr d \<Rightarrow>
          (case posts_of env isRss els of
             Inl e \<Rightarrow> Inl e
           | Inr ps \<Rightarrow> Inr (post_of isRss el d @ ps)))"

text \<open>The posts \<^verbatim>\<open>parseFeed\<close> resolves from the outcome of one request.\<close>

definition resolved_posts :: "env \<Rightarrow> fetch_result \<Rightarrow> post list" where
  "resolved_posts env r =
     (case r of
        Rejected \<Rightarrow> []
      | Loaded doc \<Rightarrow>
          (case posts_of env (fst (feed_items doc))
                  (js_slice (POSTS_COUNT env) (snd (feed_items doc))) of
             Inl e \<Rightarrow> []
           | Inr ps \<Rightarrow> ps))"

section \<open>What \<^verbatim>\<open>processIssue\<close> reads from an issue\<close>

text \<open>
  The directive of an issue, without the trace: the body, the span of it that the two
  regular expressions capture, and the value the span parses to. An issue has none when
  it has no body or an empty one, when nothing is captured, and when the span does not
  parse (or parses to \<^verbatim>\<open>null\<close>, which no span does, since a span opens with a brace).
\<close>

definition directive :: "issue \<Rightarrow> (jsstring \<times> jsstring \<times> json) option" where
  "directive issue =
     (case body issue of
        None \<Rightarrow> None
      | Some b \<Rightarrow>
          if b = [] then None
          else
            (case directive_span b of
               None \<Rightarrow> None
             | Some span \<Rightarrow>
                 (case JSON_parse span of
                    None \<Rightarrow> None
                  | Some data \<Rightarrow> if data = JNull then None else Some (b, span, data))))"

definition feed_value :: "json \<Rightarrow> json option" where
  "feed_value v = (case v of JObj kvs \<Rightarrow> map_of kvs (js ''feed'') | _ \<Rightarrow> None)"

definition posts_value :: "json \<Rightarrow> json option" where
  "posts_value v = (case v of JObj kvs \<Rightarrow> map_of kvs (js ''posts'') | _ \<Rightarrow> None)"

text \<open>
  Whether the directive asks for its feed: it has a \<^verbatim>\<open>feed\<close> and the value is truthy.
\<close>

definition wants_feed :: "env \<Rightarrow> json \<Rightarrow> bool" where
  "wants_feed env v =
     (case feed_value v of None \<Rightarrow> False | Some f \<Rightarrow> truthy (number_is_zero env) f)"

text \<open>
  A text holds a fenced block, in the words of section 4.3, when it holds an opening
  fence tagged \<^verbatim>\<open>json\<close>, white space, a span from an opening brace to a closing brace,
  white space and a closing fence.
\<close>

definition fenced_block :: "jsstring \<Rightarrow> bool" where
  "fenced_block b \<longleftrightarrow>
     (\<exists>pre ws inner ws' post.
        b = pre @ fence @ ws @ [123] @ inner @ [125] @ ws' @ ticks @ post
      \<and> list_all is_space ws \<and> list_all is_space ws')"



section \<open>Worked inputs\<close>

text \<open>
  The worker with the defaults of lines 7 to 9: three attempts, two posts, the default
  date pattern. The stand-in for the date formatter returns the date as it is written;
  the documents below carry no date, so it is never called on them. The stand-ins for
  the two number conversions are never consulted either: the numbers of the worked
  inputs are small integers.
\<close>

definition worker_env ::
  "(json \<Rightarrow> nat \<Rightarrow> fetch_result) \<Rightarrow> issue list \<Rightarrow> (nat \<Rightarrow> jsstring \<Rightarrow> bool) \<Rightarrow> env" where
  "worker_env fetch issues upd =
     \<lparr>RETRY_TIMES = 3, POSTS_COUNT = 2, DATE_FORMAT = js ''YYYY-MM-DD HH:mm:ss'',
      axios_get = fetch, formatDate = (\<lambda>s f. Inr s), getIssues = Some issues,
      issues_update = upd, number_text = (\<lambda>l. l), number_is_zero = (\<lambda>l. False)\<rparr>"

text \<open>An Atom entry with a title and a link, and one with a link and no title.\<close>

definition atom_entry :: "jsstring \<Rightarrow> jsstring \<Rightarrow> node" where
  "atom_entry t h =
     Element (js ''entry'') []
       [Element (js ''title'') [] [Text t], Element (js ''link'') [(js ''href'', h)] []]"

definition untitled_entry :: "jsstring \<Rightarrow> node" where
  "untitled_entry h = Element (js ''entry'') [] [Element (js ''link'') [(js ''href'', h)] []]"

definition atom_feed :: "node list \<Rightarrow> node list" where
  "atom_feed entries = [Element (js ''feed'') [] entries]"

text \<open>
  Issues whose body is a fenced directive between two words, and the texts of several
  lines that \<^verbatim>\<open>JSON.stringify\<close> writes.
\<close>

definition issue_of :: "nat \<Rightarrow> jsstring \<Rightarrow> issue" where
  "issue_of n b = \<lparr>number = n, body = Some b\<rparr>"

definition lines :: "jsstring list \<Rightarrow> jsstring" where
  "lines ls = join [10] ls"

text \<open>
  A request that is rejected the first time and answered with a one-entry Atom feed from
  the second time on; and requests that are always rejected, or always answered.
\<close>

definition fails_once :: "node list \<Rightarrow> json \<Rightarrow> nat \<Rightarrow> fetch_result" where
  "fails_once doc u k = (if k = 0 then Rejected else Loaded doc)"

definition always_rejected :: "json \<Rightarrow> nat \<Rightarrow> fetch_result" where
  "always_rejected u k = Rejected"

definition always_loaded :: "node list \<Rightarrow> json \<Rightarrow> nat \<Rightarrow> fetch_result" where
  "always_loaded doc u k = Loaded doc"

definition update_ok :: "nat \<Rightarrow> jsstring \<Rightarrow> bool" where
  "update_ok n b = True"

definition update_fails_for :: "nat \<Rightarrow> nat \<Rightarrow> jsstring \<Rightarrow> bool" where
  "update_fails_for k n b = (n \<noteq> k)"

section \<open>What the two regular expressions capture\<close>

lemma ticks_eq: "ticks = [96, 96, 96]"
  by (simp add: ticks_def js_def)

lemma fence_eq: "fence = [96, 96, 96, 106, 115, 111, 110]"
  by (simp add: fence_def js_def)

lemma not_space_punct: "\<not> is_space 96" "\<not> is_space 123" "\<not> is_space 125"
  by (simp_all add: is_space_def)

lemma starts_with_append: "starts_with p (p @ s)"
  by (simp add: starts_with_def)

lemma starts_with_split: "starts_with p s \<Longrightarrow> s = p @ drop (length p) s"
  by (metis append_take_drop_id starts_with_def)

lemma dropWhile_spaces:
  "list_all is_space ws \<Longrightarrow> \<not> is_space c \<Longrightarrow> dropWhile is_space (ws @ c # s) = c # s"
  by (induction ws) auto

lemma takeWhile_spaces:
  "list_all is_space ws \<Longrightarrow> \<not> is_space c \<Longrightarrow> takeWhile is_space (ws @ c # s) = ws"
  by (induction ws) auto

lemma lazy_close_sound:
  "lazy_close s = Some x \<Longrightarrow>
   \<exists>inner ws post. s = inner @ [125] @ ws @ ticks @ post \<and> x = inner @ [125] @ ws @ ticks
                  \<and> list_all is_space ws"
proof (induction s arbitrary: x)
  case Nil
  then show ?case by simp
next
  case (Cons c s)
  show ?case
  proof (cases "c = 125 \<and> starts_with ticks (dropWhile is_space s)")
    case True
    let ?ws = "takeWhile is_space s"
    let ?d = "dropWhile is_space s"
    have x: "x = [] @ [125] @ ?ws @ ticks"
      using Cons.prems True by simp
    have "?d = ticks @ drop (length ticks) ?d"
      using True starts_with_split by blast
    then have "s = ?ws @ ticks @ drop (length ticks) ?d"
      by (metis takeWhile_dropWhile_id)
    then have "c # s = [] @ [125] @ ?ws @ ticks @ drop (length ticks) ?d"
      using True by simp
    moreover have "list_all is_space ?ws"
      by (simp add: list_all_iff) (meson set_takeWhileD)
    ultimately show ?thesis using x by blast
  next
    case False
    then obtain y where y: "lazy_close s = Some y" and x: "x = c # y"
      using Cons.prems by (auto split: if_splits)
    from Cons.IH [OF y] obtain inner ws post where
      "s = inner @ [125] @ ws @ ticks @ post" "y = inner @ [125] @ ws @ ticks" "list_all is_space ws"
      by blast
    then have "c # s = (c # inner) @ [125] @ ws @ ticks @ post
             \<and> x = (c # inner) @ [125] @ ws @ ticks \<and> list_all is_space ws"
      using x by simp
    then show ?thesis by blast
  qed
qed

lemma lazy_close_complete:
  "list_all is_space ws \<Longrightarrow> lazy_close (inner @ [125] @ ws @ ticks @ post) \<noteq> None"
proof (induction inner)
  case Nil
  have "dropWhile is_space (ws @ ticks @ post) = ticks @ post"
    using dropWhile_spaces [OF Nil, of 96] by (simp add: ticks_eq not_space_punct)
  then show ?case by (simp add: starts_with_append)
next
  case (Cons c inner)
  then show ?case by simp
qed

lemma match_here_sound:
  assumes "match_here s = Some m"
  shows "\<exists>ws inner ws' post. s = m @ post \<and> m = fence @ ws @ [123] @ inner @ [125] @ ws' @ ticks
           \<and> list_all is_space ws \<and> list_all is_space ws'"
proof -
  let ?r = "drop (length fence) s"
  have sw: "starts_with fence s"
    using assms by (simp add: match_here_def split: if_splits)
  then have s: "s = fence @ ?r" by (rule starts_with_split)
  obtain rest x where d: "dropWhile is_space ?r = 123 # rest" and lc: "lazy_close rest = Some x"
    and m: "m = fence @ takeWhile is_space ?r @ 123 # x"
    using assms sw by (auto simp: match_here_def Let_def split: list.splits if_splits)
  from lazy_close_sound [OF lc] obtain inner ws' post where
    rest: "rest = inner @ [125] @ ws' @ ticks @ post" and x: "x = inner @ [125] @ ws' @ ticks"
    and sp: "list_all is_space ws'"
    by blast
  let ?ws = "takeWhile is_space ?r"
  have "?r = ?ws @ 123 # rest"
    using d by (metis takeWhile_dropWhile_id)
  then have "s = fence @ ?ws @ 123 # rest"
    using s by simp
  then have "s = m @ post"
    using m rest x by simp
  moreover have "m = fence @ ?ws @ [123] @ inner @ [125] @ ws' @ ticks"
    using m x by simp
  moreover have "list_all is_space ?ws"
    by (simp add: list_all_iff) (meson set_takeWhileD)
  ultimately show ?thesis using sp by blast
qed

lemma match_here_complete:
  assumes "list_all is_space ws" and "list_all is_space ws'"
  shows "match_here (fence @ ws @ [123] @ inner @ [125] @ ws' @ ticks @ post) \<noteq> None"
proof -
  let ?s = "fence @ ws @ [123] @ inner @ [125] @ ws' @ ticks @ post"
  have d: "dropWhile is_space (ws @ 123 # inner @ [125] @ ws' @ ticks @ post)
             = 123 # inner @ [125] @ ws' @ ticks @ post"
    using dropWhile_spaces [OF assms(1), of 123] by (simp add: not_space_punct)
  have "lazy_close (inner @ [125] @ ws' @ ticks @ post) \<noteq> None"
    using assms(2) by (rule lazy_close_complete)
  then show ?thesis
    using d by (auto simp: match_here_def starts_with_append)
qed

lemma fence_match_sound:
  "fence_match s = Some m \<Longrightarrow> \<exists>pre post. s = pre @ post \<and> match_here post = Some m"
proof (induction s)
  case Nil
  then show ?case by (metis append_Nil fence_match.simps(1))
next
  case (Cons c s)
  show ?case
  proof (cases "match_here (c # s)")
    case None
    then have "fence_match s = Some m" using Cons.prems by simp
    then obtain pre post where "s = pre @ post" "match_here post = Some m"
      using Cons.IH by blast
    then have "c # s = (c # pre) @ post \<and> match_here post = Some m" by simp
    then show ?thesis by blast
  next
    case (Some m')
    then have "m' = m" using Cons.prems by simp
    then show ?thesis using Some by (metis append_Nil)
  qed
qed

lemma fence_match_complete:
  "match_here post \<noteq> None \<Longrightarrow> fence_match (pre @ post) \<noteq> None"
proof (induction pre)
  case Nil
  then show ?case by (cases post) auto
next
  case (Cons c pre)
  then show ?case by (cases "match_here (c # pre @ post)") auto
qed

lemma dropWhile_skip:
  "\<forall>x\<in>set xs. P x \<Longrightarrow> dropWhile P (xs @ ys) = dropWhile P ys"
  by (induction xs) auto

lemma brace_match_span:
  assumes "list_all is_space ws" and "list_all is_space ws'"
  shows "brace_match (fence @ ws @ [123] @ inner @ [125] @ ws' @ ticks) = Some ([123] @ inner @ [125])"
proof -
  have nb: "\<forall>x\<in>set (fence @ ws). x \<noteq> 123"
    using assms(1) by (auto simp: fence_eq list_all_iff not_space_punct)
  have front: "dropWhile (\<lambda>c. c \<noteq> 123) ((fence @ ws) @ 123 # inner @ [125] @ ws' @ ticks)
                 = 123 # inner @ [125] @ ws' @ ticks"
    using dropWhile_skip [OF nb] by simp
  have nc: "\<forall>x\<in>set (rev ticks @ rev ws'). x \<noteq> 125"
    using assms(2) by (auto simp: ticks_eq list_all_iff not_space_punct)
  have "dropWhile (\<lambda>d. d \<noteq> 125) ((rev ticks @ rev ws') @ 125 # rev inner) = 125 # rev inner"
    using dropWhile_skip [OF nc] by simp
  then have tail_part: "rev (dropWhile (\<lambda>d. d \<noteq> 125) (rev (inner @ [125] @ ws' @ ticks))) = inner @ [125]"
    by simp
  show ?thesis
    using front tail_part by (simp add: brace_match_def split: list.splits)
qed

lemma directive_span_Some:
  assumes "directive_span b = Some span"
  shows "\<exists>pre ws inner ws' post.
           b = pre @ fence @ ws @ span @ ws' @ ticks @ post \<and> span = [123] @ inner @ [125]
         \<and> list_all is_space ws \<and> list_all is_space ws'"
proof -
  obtain m where fm: "fence_match b = Some m" and bm: "brace_match m = Some span"
    using assms by (auto simp: directive_span_def split: option.splits)
  obtain pre s where b: "b = pre @ s" and mh: "match_here s = Some m"
    using fence_match_sound [OF fm] by blast
  obtain ws inner ws' post where s: "s = m @ post"
    and m: "m = fence @ ws @ [123] @ inner @ [125] @ ws' @ ticks"
    and sp: "list_all is_space ws" "list_all is_space ws'"
    using match_here_sound [OF mh] by blast
  have span: "span = [123] @ inner @ [125]"
    using bm brace_match_span [OF sp, of inner] m by simp
  have "b = pre @ fence @ ws @ span @ ws' @ ticks @ post"
    using b s m span by simp
  then show ?thesis using span sp by blast
qed

lemma directive_span_None_iff:
  "directive_span b = None \<longleftrightarrow>
     \<not> (\<exists>pre ws inner ws' post.
           b = pre @ fence @ ws @ [123] @ inner @ [125] @ ws' @ ticks @ post
         \<and> list_all is_space ws \<and> list_all is_space ws')"
proof
  assume n: "directive_span b = None"
  show "\<not> (\<exists>pre ws inner ws' post.
           b = pre @ fence @ ws @ [123] @ inner @ [125] @ ws' @ ticks @ post
         \<and> list_all is_space ws \<and> list_all is_space ws')"
  proof
    assume "\<exists>pre ws inner ws' post.
           b = pre @ fence @ ws @ [123] @ inner @ [125] @ ws' @ ticks @ post
         \<and> list_all is_space ws \<and> list_all is_space ws'"
    then obtain pre ws inner ws' post where
      b: "b = pre @ (fence @ ws @ [123] @ inner @ [125] @ ws' @ ticks @ post)"
      and sp: "list_all is_space ws" "list_all is_space ws'"
      by auto
    have "fence_match b \<noteq> None"
      unfolding b using match_here_complete [OF sp] by (rule fence_match_complete)
    then obtain m where fm: "fence_match b = Some m" by auto
    obtain pre2 s where "b = pre2 @ s" and mh: "match_here s = Some m"
      using fence_match_sound [OF fm] by blast
    obtain ws2 inner2 ws2' where "m = fence @ ws2 @ [123] @ inner2 @ [125] @ ws2' @ ticks"
      and "list_all is_space ws2" "list_all is_space ws2'"
      using match_here_sound [OF mh] by blast
    then have "brace_match m \<noteq> None"
      using brace_match_span by simp
    then show False
      using n fm by (simp add: directive_span_def)
  qed
next
  assume a: "\<not> (\<exists>pre ws inner ws' post.
           b = pre @ fence @ ws @ [123] @ inner @ [125] @ ws' @ ticks @ post
         \<and> list_all is_space ws \<and> list_all is_space ws')"
  show "directive_span b = None"
  proof (rule ccontr)
    assume "directive_span b \<noteq> None"
    then obtain span where "directive_span b = Some span" by auto
    from directive_span_Some [OF this] obtain pre ws inner ws' post where
      "b = pre @ fence @ ws @ span @ ws' @ ticks @ post" "span = [123] @ inner @ [125]"
      "list_all is_space ws" "list_all is_space ws'"
      by blast
    then have "b = pre @ fence @ ws @ [123] @ inner @ [125] @ ws' @ ticks @ post
         \<and> list_all is_space ws \<and> list_all is_space ws'"
      by simp
    then show False using a by blast
  qed
qed

lemma directive_span_fenced: "directive_span b = None \<longleftrightarrow> \<not> fenced_block b"
  unfolding fenced_block_def by (rule directive_span_None_iff)

text \<open>
  The replacement of line 93 keeps the text before and after the first occurrence of the
  pattern; the captured span is that occurrence only when its text does not stand
  earlier in the body.
\<close>

lemma split_first_sound:
  "split_first pat s = Some (pre, post) \<Longrightarrow> s = pre @ pat @ post"
proof (induction s arbitrary: pre post)
  case Nil
  then show ?case by (simp split: if_splits)
next
  case (Cons c s)
  show ?case
  proof (cases "starts_with pat (c # s)")
    case True
    then have "pre = []" "post = drop (length pat) (c # s)"
      using Cons.prems by simp_all
    then show ?thesis
      using starts_with_split [OF True] by simp
  next
    case False
    then obtain pre' where "split_first pat s = Some (pre', post)" and "pre = c # pre'"
      using Cons.prems by (auto split: if_splits)
    then show ?thesis using Cons.IH by simp
  qed
qed

lemma replace_frame:
  "split_first pat s = Some (pre, post) \<Longrightarrow>
   s = pre @ pat @ post \<and> replace s pat rep = pre @ substitution pat pre post rep @ post"
  by (simp add: replace_def split_first_sound)







section \<open>Properties of \<^verbatim>\<open>parseFeed\<close>\<close>

lemma gets_append: "gets (t @ u) = gets t + gets u"
  by (simp add: gets_def)

lemma gets_Nil [simp]: "gets [] = 0"
  by (simp add: gets_def)

lemma gets_Cons [simp]:
  "gets (ev # t) = (case ev of AxiosGet u \<Rightarrow> 1 | _ \<Rightarrow> 0) + gets t"
  by (simp add: gets_def split: event.splits)

lemma gets_logs: "list_all is_log logs \<Longrightarrow> gets logs = 0"
  by (induction logs) (auto simp: is_log_def split: event.splits)

lemma updates_append: "updates (t @ u) = updates t @ updates u"
  by (simp add: updates_def)

lemma updates_Nil [simp]: "updates [] = []"
  by (simp add: updates_def)

lemma updates_Cons [simp]:
  "updates (ev # t) = (case ev of IssuesUpdate n b \<Rightarrow> [(n, b)] | _ \<Rightarrow> []) @ updates t"
  by (simp add: updates_def)

lemma updates_logs: "list_all is_log logs \<Longrightarrow> updates logs = []"
  by (induction logs) (auto simp: is_log_def split: event.splits)

lemma extract_post_result:
  "extract_post env isRss el acc t =
     (case date_text env isRss el of
        Inl e \<Rightarrow> (Throw e, t)
      | Inr d \<Rightarrow> (Return (acc @ post_of isRss el d), t @ [Logger Info ''Extracted'']))"
  by (simp add: extract_post_def date_text_def post_of_def format_date_def js_bind_def
      js_return_def logger_def emit_def split: sum.splits option.splits)

lemma each_item_result:
  "\<exists>logs. each_item env isRss els acc t =
          (case posts_of env isRss els of Inl e \<Rightarrow> Throw e | Inr ps \<Rightarrow> Return (acc @ ps), t @ logs)
      \<and> list_all is_log logs"
proof (induction els arbitrary: acc t)
  case Nil
  show ?case
    by (rule exI [of _ "[]"]) (simp add: js_return_def)
next
  case (Cons el els)
  show ?case
  proof (cases "date_text env isRss el")
    case (Inl e)
    show ?thesis
      by (rule exI [of _ "[]"]) (simp add: js_bind_def extract_post_result Inl)
  next
    case (Inr d)
    obtain logs where
      t': "each_item env isRss els (acc @ post_of isRss el d) (t @ [Logger Info ''Extracted'']) =
             (case posts_of env isRss els of
                Inl e \<Rightarrow> Throw e
              | Inr ps \<Rightarrow> Return ((acc @ post_of isRss el d) @ ps),
              (t @ [Logger Info ''Extracted'']) @ logs)"
      and l: "list_all is_log logs"
      using Cons.IH by blast
    have step: "each_item env isRss (el # els) acc t =
            each_item env isRss els (acc @ post_of isRss el d) (t @ [Logger Info ''Extracted''])"
      by (simp add: js_bind_def extract_post_result Inr)
    have l': "list_all is_log (Logger Info ''Extracted'' # logs)"
      using l by (simp add: is_log_def)
    have "each_item env isRss (el # els) acc t =
          (case posts_of env isRss (el # els) of Inl e \<Rightarrow> Throw e | Inr ps \<Rightarrow> Return (acc @ ps),
           t @ (Logger Info ''Extracted'' # logs))"
      unfolding step t' using Inr by (simp split: sum.splits)
    then show ?thesis using l' by blast
  qed
qed

lemma post_of_props:
  "length (post_of isRss el d) \<le> 1 \<and> (\<forall>p\<in>set (post_of isRss el d). title p \<noteq> [] \<and> link p \<noteq> [])"
  by (simp add: post_of_def split: option.splits)

lemma posts_of_props:
  "posts_of env isRss els = Inr ps \<Longrightarrow>
     length ps \<le> length els \<and> (\<forall>p\<in>set ps. title p \<noteq> [] \<and> link p \<noteq> [])"
proof (induction els arbitrary: ps)
  case Nil
  then show ?case by simp
next
  case (Cons el els)
  from Cons.prems obtain d ps' where d: "date_text env isRss el = Inr d"
    and ps': "posts_of env isRss els = Inr ps'" and ps: "ps = post_of isRss el d @ ps'"
    by (auto split: sum.splits)
  have "length (post_of isRss el d) \<le> 1"
    and "\<forall>p\<in>set (post_of isRss el d). title p \<noteq> [] \<and> link p \<noteq> []"
    using post_of_props by blast+
  then show ?case
    using Cons.IH [OF ps'] ps by auto
qed

lemma posts_of_no_throw:
  "\<forall>el\<in>set els. date_text env isRss el = Inr (d el) \<Longrightarrow>
     posts_of env isRss els = Inr (concat (map (\<lambda>el. post_of isRss el (d el)) els))"
  by (induction els) simp_all

lemma parseFeed_trace:
  assumes "\<not> to_string_throws feedUrl"
  shows "\<exists>logs. parseFeed env feedUrl t =
            (Return (resolved_posts env (axios_get env feedUrl (gets t))), t @ AxiosGet feedUrl # logs)
      \<and> list_all is_log logs
      \<and> (axios_get env feedUrl (gets t) = Rejected \<longrightarrow>
           logs = [HandleError NetworkError ''Error parsing feed''])"
proof (cases "axios_get env feedUrl (gets t)")
  case Rejected
  then show ?thesis
    using assms
    by (simp add: parseFeed_def parseFeed_try_def try_catch_def js_bind_def http_get_def
        handleError_def emit_def js_return_def resolved_posts_def is_log_def interpolate_def)
next
  case (Loaded doc)
  let ?t1 = "t @ [AxiosGet feedUrl, Logger Info ''Feed URL'']"
  let ?items = "js_slice (POSTS_COUNT env) (snd (feed_items doc))"
  obtain logs where
    t': "each_item env (fst (feed_items doc)) ?items [] ?t1 =
           (case posts_of env (fst (feed_items doc)) ?items of
              Inl e \<Rightarrow> Throw e
            | Inr ps \<Rightarrow> Return ([] @ ps), ?t1 @ logs)"
    and l: "list_all is_log logs"
    using each_item_result by blast
  have body: "parseFeed_try env feedUrl t = each_item env (fst (feed_items doc)) ?items [] ?t1"
    by (simp add: parseFeed_try_def js_bind_def http_get_def Loaded logger_def emit_def)
  show ?thesis
  proof (cases "posts_of env (fst (feed_items doc)) ?items")
    case (Inl e)
    have "parseFeed env feedUrl t =
            (Return [], t @ AxiosGet feedUrl # Logger Info ''Feed URL'' # logs
                          @ [HandleError e ''Error parsing feed''])"
      using t' body Inl assms
      by (simp add: parseFeed_def try_catch_def js_bind_def handleError_def emit_def js_return_def
          interpolate_def)
    moreover have "list_all is_log (Logger Info ''Feed URL'' # logs @ [HandleError e ''Error parsing feed''])"
      using l by (simp add: is_log_def)
    moreover have "resolved_posts env (axios_get env feedUrl (gets t)) = []"
      by (simp add: resolved_posts_def Loaded Inl)
    ultimately show ?thesis
      using Loaded by (metis append_Cons fetch_result.distinct(1))
  next
    case (Inr ps)
    have "parseFeed env feedUrl t = (Return ps, t @ AxiosGet feedUrl # Logger Info ''Feed URL'' # logs)"
      using t' body Inr by (simp add: parseFeed_def try_catch_def)
    moreover have "list_all is_log (Logger Info ''Feed URL'' # logs)"
      using l by (simp add: is_log_def)
    moreover have "resolved_posts env (axios_get env feedUrl (gets t)) = ps"
      by (simp add: resolved_posts_def Loaded Inr)
    ultimately show ?thesis
      using Loaded by (metis fetch_result.distinct(1))
  qed
qed

lemma parseFeed_result:
  assumes "\<not> to_string_throws feedUrl"
  shows "\<exists>t'. parseFeed env feedUrl t = (Return (resolved_posts env (axios_get env feedUrl (gets t))), t')
      \<and> gets t' = Suc (gets t)
      \<and> (axios_get env feedUrl (gets t) = Rejected \<longrightarrow>
           t' = t @ [AxiosGet feedUrl, HandleError NetworkError ''Error parsing feed''])"
proof -
  obtain logs where
    r: "parseFeed env feedUrl t =
          (Return (resolved_posts env (axios_get env feedUrl (gets t))), t @ AxiosGet feedUrl # logs)"
    and l: "list_all is_log logs"
    and rej: "axios_get env feedUrl (gets t) = Rejected \<longrightarrow>
           logs = [HandleError NetworkError ''Error parsing feed'']"
    using parseFeed_trace [OF assms] by blast
  have "gets (t @ AxiosGet feedUrl # logs) = Suc (gets t)"
    using gets_logs [OF l] by (simp add: gets_append)
  then show ?thesis using r rej by auto
qed

lemma parseFeed_loaded:
  assumes "axios_get env feedUrl (gets t) = Loaded doc"
    and "posts_of env (fst (feed_items doc)) (js_slice (POSTS_COUNT env) (snd (feed_items doc))) = Inr ps"
  shows "\<exists>t'. parseFeed env feedUrl t = (Return ps, t')"
proof -
  let ?t1 = "t @ [AxiosGet feedUrl, Logger Info ''Feed URL'']"
  let ?items = "js_slice (POSTS_COUNT env) (snd (feed_items doc))"
  obtain logs where
    t': "each_item env (fst (feed_items doc)) ?items [] ?t1 =
           (case posts_of env (fst (feed_items doc)) ?items of
              Inl e \<Rightarrow> Throw e
            | Inr ps \<Rightarrow> Return ([] @ ps), ?t1 @ logs)"
    using each_item_result by blast
  have body: "parseFeed_try env feedUrl t = each_item env (fst (feed_items doc)) ?items [] ?t1"
    by (simp add: parseFeed_try_def js_bind_def http_get_def assms(1) logger_def emit_def)
  show ?thesis
    using t' body assms(2) by (simp add: parseFeed_def try_catch_def)
qed

lemma resolve_feed_unprintable:
  assumes "feed_value data = Some f" and "truthy (number_is_zero env) f" and "to_string_throws f"
  shows "resolve_feed env data t = (Throw TypeError, t)"
proof -
  obtain kvs where "data = JObj kvs" and "map_of kvs (js ''feed'') = Some f"
    using assms(1) by (cases data) (simp_all add: feed_value_def)
  then show ?thesis
    using assms(2,3)
    by (simp add: resolve_feed_def get_feed_def js_bind_def interpolate_def)
qed

lemma parseFeed_unprintable:
  assumes "to_string_throws feedUrl" and "axios_get env feedUrl (gets t) = Rejected"
  shows "parseFeed env feedUrl t = (Throw TypeError, t @ [AxiosGet feedUrl])"
  using assms
  by (simp add: parseFeed_def parseFeed_try_def try_catch_def js_bind_def http_get_def
      interpolate_def)

text \<open>
  Claim C10. \<^verbatim>\<open>parseFeed\<close> returns for every feed URL and every outcome of the request:
  it never throws. A feed URL is a value whose conversion to a string does not throw, as
  every string is; the message of line 59 converts it. A rejected request, and any
  exception under the \<^verbatim>\<open>try\<close> of \<^verbatim>\<open>parseFeed\<close>, is handed to the error handler and
  gives the empty list. So the retry wrapper of line 88 never sees a failed attempt: with
  one attempt or more allowed, it makes one request and returns what \<^verbatim>\<open>parseFeed\<close>
  returned. No other value reaches \<^verbatim>\<open>parseFeed\<close>: for a truthy \<^verbatim>\<open>feed\<close> whose conversion
  throws, the message of line 87 throws before the wrapper is called.
\<close>

theorem parseFeed_total:
  "(\<not> to_string_throws feedUrl \<longrightarrow>
      (\<exists>posts t'. parseFeed env feedUrl t = (Return posts, t')
         \<and> (axios_get env feedUrl (gets t) = Rejected \<longrightarrow>
              posts = [] \<and> t' = t @ [AxiosGet feedUrl, HandleError NetworkError ''Error parsing feed''])
         \<and> (\<forall>e. fst (parseFeed_try env feedUrl t) = Throw e \<longrightarrow>
              posts = [] \<and> HandleError e ''Error parsing feed'' \<in> set t')
         \<and> withRetry (parseFeed env feedUrl) (Suc n) t = (Return posts, t')
         \<and> gets t' = Suc (gets t)))
 \<and> (\<forall>data. feed_value data = Some feedUrl \<and> truthy (number_is_zero env) feedUrl
        \<and> to_string_throws feedUrl \<longrightarrow>
      resolve_feed env data t = (Throw TypeError, t))"
proof (intro conjI impI allI)
  assume np: "\<not> to_string_throws feedUrl"
  obtain t' where r: "parseFeed env feedUrl t = (Return (resolved_posts env (axios_get env feedUrl (gets t))), t')"
    and g: "gets t' = Suc (gets t)"
    and rej: "axios_get env feedUrl (gets t) = Rejected \<longrightarrow>
           t' = t @ [AxiosGet feedUrl, HandleError NetworkError ''Error parsing feed'']"
    using parseFeed_result [OF np] by blast
  let ?posts = "resolved_posts env (axios_get env feedUrl (gets t))"
  have a: "axios_get env feedUrl (gets t) = Rejected \<longrightarrow>
          ?posts = [] \<and> t' = t @ [AxiosGet feedUrl, HandleError NetworkError ''Error parsing feed'']"
    using rej by (simp add: resolved_posts_def)
  have b: "\<forall>e. fst (parseFeed_try env feedUrl t) = Throw e \<longrightarrow>
          ?posts = [] \<and> HandleError e ''Error parsing feed'' \<in> set t'"
  proof (intro allI impI)
    fix e
    assume th: "fst (parseFeed_try env feedUrl t) = Throw e"
    obtain u where u: "parseFeed_try env feedUrl t = (Throw e, u)"
      using th by (cases "parseFeed_try env feedUrl t") simp
    have "parseFeed env feedUrl t = (Return [], u @ [HandleError e ''Error parsing feed''])"
      using np
      by (simp add: parseFeed_def try_catch_def u js_bind_def handleError_def emit_def js_return_def
          interpolate_def)
    then show "?posts = [] \<and> HandleError e ''Error parsing feed'' \<in> set t'"
      using r by simp
  qed
  have c: "withRetry (parseFeed env feedUrl) (Suc n) t = (Return ?posts, t')"
    by (simp add: r)
  show "\<exists>posts t'. parseFeed env feedUrl t = (Return posts, t')
         \<and> (axios_get env feedUrl (gets t) = Rejected \<longrightarrow>
              posts = [] \<and> t' = t @ [AxiosGet feedUrl, HandleError NetworkError ''Error parsing feed''])
         \<and> (\<forall>e. fst (parseFeed_try env feedUrl t) = Throw e \<longrightarrow>
              posts = [] \<and> HandleError e ''Error parsing feed'' \<in> set t')
         \<and> withRetry (parseFeed env feedUrl) (Suc n) t = (Return posts, t')
         \<and> gets t' = Suc (gets t)"
    using r a b c g by blast
next
  fix data
  assume "feed_value data = Some feedUrl \<and> truthy (number_is_zero env) feedUrl
        \<and> to_string_throws feedUrl"
  then show "resolve_feed env data t = (Throw TypeError, t)"
    by (simp add: resolve_feed_unprintable)
qed


lemmas dom_eval =
  feed_items_def select_chain_def js_slice_def item_title_def item_link_def item_date_def
  dom_find_def first_text_def attr_def is_tag_def has_attr_def js_def
  atom_entry_def untitled_entry_def atom_feed_def

lemmas js_eval =
  try_catch_def js_bind_def js_return_def logger_def emit_def handleError_def interpolate_def

lemmas feed_eval =
  parseFeed_def parseFeed_try_def http_get_def extract_post_def format_date_def
  worker_env_def

theorem parseFeed_total_witness:
  "parseFeed (worker_env (\<lambda>u k. Rejected) [] (\<lambda>n b. True)) (JStr (js ''u'')) []
     = (Return [], [AxiosGet (JStr (js ''u'')), HandleError NetworkError ''Error parsing feed''])"
proof -
  have np: "\<not> to_string_throws (JStr (js ''u''))" by simp
  have rej: "axios_get (worker_env (\<lambda>u k. Rejected) [] (\<lambda>n b. True)) (JStr (js ''u'')) (gets []) = Rejected"
    by (simp add: worker_env_def)
  from parseFeed_total [of "JStr (js ''u'')" "worker_env (\<lambda>u k. Rejected) [] (\<lambda>n b. True)" "[]" 0] np rej
  show ?thesis by auto
qed

text \<open>
  Claim C7, as the code has it. For a document without RSS items that has \<open>N\<close> Atom
  entries, and \<open>maxPosts = M \<ge> 0\<close>, \<^verbatim>\<open>parseFeed\<close> returns at most \<open>min N M\<close> records, each
  with a title and a link that are not empty. When the date formatter throws on none of
  the first \<open>M\<close> entries, the records are those of the first \<open>M\<close> entries that have a title
  and a link, in document order: an entry without one of them gives no record. The feed
  URL is a value whose conversion to a string does not throw, as every string is; any
  other value will do when the date formatter throws on none of the first \<open>M\<close> entries,
  since line 59, which converts the feed URL, is then not reached.
\<close>

theorem parseFeed_atom_posts:
  assumes "axios_get env feedUrl (gets t) = Loaded doc"
    and "select_chain [js ''rss'', js ''channel'', js ''item''] doc = []"
    and "0 \<le> POSTS_COUNT env"
    and "to_string_throws feedUrl \<longrightarrow>
           (\<forall>el\<in>set (take (nat (POSTS_COUNT env)) (select_chain [js ''feed'', js ''entry''] doc)).
               \<exists>s. date_text env False el = Inr s)"
  shows "\<exists>posts. fst (parseFeed env feedUrl t) = Return posts
    \<and> length posts \<le> min (length (select_chain [js ''feed'', js ''entry''] doc)) (nat (POSTS_COUNT env))
    \<and> (\<forall>p\<in>set posts. title p \<noteq> [] \<and> link p \<noteq> [])
    \<and> ((\<forall>el\<in>set (take (nat (POSTS_COUNT env)) (select_chain [js ''feed'', js ''entry''] doc)).
            date_text env False el = Inr (d el)) \<longrightarrow>
         posts = concat (map (\<lambda>el. post_of False el (d el))
                   (take (nat (POSTS_COUNT env)) (select_chain [js ''feed'', js ''entry''] doc))))"
proof -
  let ?entries = "select_chain [js ''feed'', js ''entry''] doc"
  let ?items = "take (nat (POSTS_COUNT env)) ?entries"
  have fi: "feed_items doc = (False, ?entries)"
    using assms(2) by (simp add: feed_items_def)
  have sl: "js_slice (POSTS_COUNT env) ?entries = ?items"
    using assms(3) by (simp add: js_slice_def)
  have rp: "resolved_posts env (Loaded doc) =
              (case posts_of env False ?items of Inl e \<Rightarrow> [] | Inr ps \<Rightarrow> ps)"
    by (simp add: resolved_posts_def fi sl)
  have "\<exists>t'. parseFeed env feedUrl t = (Return (resolved_posts env (Loaded doc)), t')"
  proof (cases "to_string_throws feedUrl")
    case False
    then show ?thesis
      using parseFeed_result [of feedUrl env t] assms(1) by auto
  next
    case True
    then have "\<forall>el\<in>set ?items. \<exists>s. date_text env False el = Inr s"
      using assms(4) by simp
    then obtain g where "\<forall>el\<in>set ?items. date_text env False el = Inr (g el)"
      by metis
    then have p: "posts_of env False ?items = Inr (concat (map (\<lambda>el. post_of False el (g el)) ?items))"
      by (rule posts_of_no_throw)
    have "posts_of env (fst (feed_items doc)) (js_slice (POSTS_COUNT env) (snd (feed_items doc)))
            = Inr (concat (map (\<lambda>el. post_of False el (g el)) ?items))"
      using p by (simp add: fi sl)
    from parseFeed_loaded [OF assms(1) this] show ?thesis
      by (simp add: rp p)
  qed
  then obtain t' where r: "parseFeed env feedUrl t = (Return (resolved_posts env (Loaded doc)), t')"
    by blast
  let ?posts = "resolved_posts env (Loaded doc)"
  have len: "length ?posts \<le> min (length ?entries) (nat (POSTS_COUNT env))"
    and ne: "\<forall>p\<in>set ?posts. title p \<noteq> [] \<and> link p \<noteq> []"
  proof -
    show "length ?posts \<le> min (length ?entries) (nat (POSTS_COUNT env))"
    proof (cases "posts_of env False ?items")
      case (Inl e)
      then show ?thesis by (simp add: rp)
    next
      case (Inr ps)
      then have "length ps \<le> length ?items" using posts_of_props by blast
      then show ?thesis by (simp add: rp Inr)
    qed
    show "\<forall>p\<in>set ?posts. title p \<noteq> [] \<and> link p \<noteq> []"
    proof (cases "posts_of env False ?items")
      case (Inl e)
      then show ?thesis by (simp add: rp)
    next
      case (Inr ps)
      then have "\<forall>p\<in>set ps. title p \<noteq> [] \<and> link p \<noteq> []" using posts_of_props by blast
      then show ?thesis by (simp add: rp Inr)
    qed
  qed
  have ex: "(\<forall>el\<in>set ?items. date_text env False el = Inr (d el)) \<longrightarrow>
         ?posts = concat (map (\<lambda>el. post_of False el (d el)) ?items)"
  proof
    assume "\<forall>el\<in>set ?items. date_text env False el = Inr (d el)"
    then have "posts_of env False ?items = Inr (concat (map (\<lambda>el. post_of False el (d el)) ?items))"
      by (rule posts_of_no_throw)
    then show "?posts = concat (map (\<lambda>el. post_of False el (d el)) ?items)"
      by (simp add: rp)
  qed
  show ?thesis
    using r len ne ex by auto
qed

theorem parseFeed_atom_posts_witness:
  "fst (parseFeed
          (worker_env (\<lambda>u k. Loaded (atom_feed [atom_entry (js ''A'') (js ''h1''), untitled_entry (js ''h2''),
                                                 atom_entry (js ''C'') (js ''h3'')])) [] (\<lambda>n b. True))
          (JStr (js ''u'')) [])
     = Return [\<lparr>title = js ''A'', link = js ''h1'', published = []\<rparr>]"
proof -
  let ?doc = "atom_feed [atom_entry (js ''A'') (js ''h1''), untitled_entry (js ''h2''),
                         atom_entry (js ''C'') (js ''h3'')]"
  let ?env = "worker_env (\<lambda>u k. Loaded ?doc) [] (\<lambda>n b. True)"
  have entries: "select_chain [js ''feed'', js ''entry''] ?doc =
      [atom_entry (js ''A'') (js ''h1''), untitled_entry (js ''h2''), atom_entry (js ''C'') (js ''h3'')]"
    by (simp add: dom_eval)
  have rss: "select_chain [js ''rss'', js ''channel'', js ''item''] ?doc = []"
    by (simp add: dom_eval)
  have a: "axios_get ?env (JStr (js ''u'')) (gets []) = Loaded ?doc"
    by (simp add: worker_env_def)
  have m: "0 \<le> POSTS_COUNT ?env" "nat (POSTS_COUNT ?env) = 2"
    by (simp_all add: worker_env_def)
  have dates: "\<forall>el\<in>set (take (nat (POSTS_COUNT ?env)) (select_chain [js ''feed'', js ''entry''] ?doc)).
            date_text ?env False el = Inr ((\<lambda>el. []) el)"
    unfolding entries m by (simp add: date_text_def dom_eval)
  have np: "to_string_throws (JStr (js ''u'')) \<longrightarrow>
      (\<forall>el\<in>set (take (nat (POSTS_COUNT ?env)) (select_chain [js ''feed'', js ''entry''] ?doc)).
          \<exists>s. date_text ?env False el = Inr s)"
    by simp
  from parseFeed_atom_posts [OF a rss m(1) np, of "\<lambda>el. []"] dates
  obtain posts where p: "fst (parseFeed ?env (JStr (js ''u'')) []) = Return posts"
    and e: "posts = concat (map (\<lambda>el. post_of False el [])
                   (take (nat (POSTS_COUNT ?env)) (select_chain [js ''feed'', js ''entry''] ?doc)))"
    by blast
  have "posts = [\<lparr>title = js ''A'', link = js ''h1'', published = []\<rparr>]"
    unfolding e entries m by (simp add: post_of_def dom_eval)
  then show ?thesis using p by simp
qed

theorem parseFeed_atom_count_counterexample:
  "length (select_chain [js ''feed'', js ''entry''] (atom_feed [untitled_entry (js ''h'')])) = 1
 \<and> POSTS_COUNT (worker_env (\<lambda>u k. Loaded (atom_feed [untitled_entry (js ''h'')])) [] (\<lambda>n b. True)) = 2
 \<and> fst (parseFeed (worker_env (\<lambda>u k. Loaded (atom_feed [untitled_entry (js ''h'')])) [] (\<lambda>n b. True))
          (JStr (js ''u'')) []) = Return []"
  by (simp add: dom_eval js_eval feed_eval)

section \<open>Properties of \<^verbatim>\<open>processIssue\<close> and \<^verbatim>\<open>run\<close>\<close>








lemma processIssue_no_directive:
  assumes "directive issue = None"
  shows "\<exists>logs. processIssue env issue t = (Return None, t @ logs) \<and> list_all is_log logs"
proof (cases "body issue")
  case None
  then show ?thesis
    by (simp add: processIssue_def processIssue_try_def try_catch_def js_bind_def js_return_def
        logger_def emit_def is_log_def)
next
  case (Some b)
  show ?thesis
  proof (cases "b = []")
    case True
    then show ?thesis
      using Some
      by (simp add: processIssue_def processIssue_try_def try_catch_def js_bind_def js_return_def
          logger_def emit_def is_log_def)
  next
    case False
    show ?thesis
    proof (cases "directive_span b")
      case None
      then show ?thesis
        using Some False
        by (simp add: processIssue_def processIssue_try_def try_catch_def js_bind_def js_return_def
            logger_def emit_def is_log_def)
    next
      case span: (Some span)
      show ?thesis
      proof (cases "JSON_parse span")
        case None
        then show ?thesis
          using Some False span
          by (simp add: processIssue_def processIssue_try_def try_catch_def js_bind_def js_return_def
              logger_def emit_def is_log_def json_parse_def handleError_def)
      next
        case (Some data)
        then have "data = JNull"
          using assms \<open>body issue = Some b\<close> False span by (simp add: directive_def split: if_splits)
        then show ?thesis
          using Some \<open>body issue = Some b\<close> False span
          by (simp add: processIssue_def processIssue_try_def try_catch_def js_bind_def js_return_def
              logger_def emit_def is_log_def json_parse_def handleError_def resolve_feed_def
              get_feed_def)
      qed
    qed
  qed
qed

lemma processIssue_directive:
  assumes "directive issue = Some (b, span, data)"
  shows "processIssue env issue t =
    (case resolve_feed env data
            (t @ [Logger Info ''Processing issue'', Logger Info ''Found JSON content'',
                  Logger Info ''Got JSON content'']) of
       (Return jsonData, t') \<Rightarrow>
         (Return (Some (jsonData, replace b span (JSON_stringify (number_text env) jsonData))),
          t' @ [Logger Info ''Converted JSON content''])
     | (Throw e, t') \<Rightarrow> (Return None, t' @ [HandleError e ''Error processing issue''])
     | (Unmodelled, t') \<Rightarrow> (Unmodelled, t'))"
proof -
  have b: "body issue = Some b" and ne: "b \<noteq> []" and s: "directive_span b = Some span"
    and p: "JSON_parse span = Some data"
    using assms by (auto simp: directive_def split: option.splits if_splits)
  show ?thesis
    by (simp add: processIssue_def processIssue_try_def b ne s p try_catch_def js_bind_def
        js_return_def logger_def emit_def json_parse_def json_stringify_def handleError_def
        split: prod.splits res.splits)
qed

lemma issue_task_skip:
  "processIssue env issue t = (Return None, t') \<Longrightarrow> issue_task env issue t = (Return (), t')"
  by (simp add: issue_task_def js_bind_def js_return_def)


lemmas text_eval =
  js_def starts_with_def fence_def ticks_def is_space_def match_here_def brace_match_def
  directive_span_def replace_def

lemmas json_eval =
  JSON_parse_def is_digit_def lex_number_def lex_frac_def lex_exp_def num_of_lexeme_def
  digits_val_def obj_build_def obj_define_def is_array_index_def hex_val_def escape_char_def
  JSON_stringify_def quote_def quote_char_def unicode_escape_def hex_digit_def is_high_def
  is_low_def show_int_def Let_def

lemmas issue_eval =
  processIssue_def processIssue_try_def resolve_feed_def get_feed_def json_parse_def
  json_stringify_def set_posts_def post_json_def issue_task_def update_issue_def pool_add_def
  list_issues_def run_def directive_def feed_value_def posts_value_def wants_feed_def

lemmas fixture_eval =
  issue_of_def lines_def fails_once_def always_rejected_def always_loaded_def update_ok_def
  update_fails_for_def

lemma withRetry_numeral:
  "withRetry operation (numeral k) t =
     (case operation t of
        (Throw e, t') \<Rightarrow>
          (let t'' = t' @ [Logger Warn ''attempt failed''] in
           if pred_numeral k = 0 then (Throw e, t'')
           else withRetry operation (pred_numeral k) t'')
      | (r, t') \<Rightarrow> (r, t'))"
  by (simp add: numeral_eq_Suc)

lemmas all_eval =
  text_eval json_eval issue_eval js_eval feed_eval dom_eval fixture_eval withRetry_numeral

text \<open>
  Claim C4, at a failing input: the first request for the feed is rejected and a second
  one would be answered. Three attempts are allowed, yet one request is made and the
  record gets an empty list of posts.
\<close>

theorem network_error_not_retried:
  \<open>RETRY_TIMES (worker_env (fails_once (atom_feed [atom_entry (js ''A'') (js ''h'')])) [] update_ok) = 3
 \<and> processIssue (worker_env (fails_once (atom_feed [atom_entry (js ''A'') (js ''h'')])) [] update_ok)
       (issue_of 7 (js ''```json {"feed":"u"} ```'')) []
   = (Return (Some (JObj [(js ''feed'', JStr (js ''u'')), (js ''posts'', JArr [])],
                    lines [js ''```json {'', js ''  "feed": "u",'', js ''  "posts": []'', js ''} ```''])),
      [Logger Info ''Processing issue'', Logger Info ''Found JSON content'',
       Logger Info ''Got JSON content'', Logger Info ''Getting feed data'',
       AxiosGet (JStr (js ''u'')), HandleError NetworkError ''Error parsing feed'',
       Logger Info ''Converted JSON content''])\<close>
  by (simp add: all_eval)

text \<open>
  Claim C5, at a failing input: the text of the directive stands a first time before the
  fenced block. The replacement lands on that first occurrence, outside the captured
  span, and the fenced block stays as it was.
\<close>

theorem replace_hits_first_occurrence:
  \<open>directive_span (js ''{"a":"b"} ```json {"a":"b"} ```'') = Some (js ''{"a":"b"}'')
 \<and> fst (processIssue (worker_env always_rejected [] update_ok)
            (issue_of 7 (js ''{"a":"b"} ```json {"a":"b"} ```'')) [])
   = Return (Some (JObj [(js ''a'', JStr (js ''b''))],
                   lines [js ''{'', js ''  "a": "b"'', js ''} ```json {"a":"b"} ```'']))\<close>
  by (simp add: all_eval)

text \<open>
  Claim C9, at a failing input: the title of the resolved post holds two dollar signs.
  The replacement text is read as a template, so the body that is written holds one, and
  parsing that body again gives a post with another title.
\<close>

theorem posts_roundtrip_dollar:
  \<open>fst (processIssue (worker_env (always_loaded (atom_feed [atom_entry (js ''A$$B'') (js ''h'')])) [] update_ok)
            (issue_of 7 (js ''```json {"feed":"u"} ```'')) [])
   = Return (Some (JObj [(js ''feed'', JStr (js ''u'')),
                         (js ''posts'', JArr [JObj [(js ''title'', JStr (js ''A$$B'')),
                                                    (js ''link'', JStr (js ''h'')),
                                                    (js ''published'', JStr [])]])],
                   lines [js ''```json {'', js ''  "feed": "u",'', js ''  "posts": ['', js ''    {'',
                          js ''      "title": "A$B",'', js ''      "link": "h",'',
                          js ''      "published": ""'', js ''    }'', js ''  ]'', js ''} ```'']))
 \<and> map_option posts_value
       (case directive_span
               (lines [js ''```json {'', js ''  "feed": "u",'', js ''  "posts": ['', js ''    {'',
                       js ''      "title": "A$B",'', js ''      "link": "h",'',
                       js ''      "published": ""'', js ''    }'', js ''  ]'', js ''} ```'']) of
          None \<Rightarrow> None
        | Some span \<Rightarrow> JSON_parse span)
   = Some (Some (JArr [JObj [(js ''title'', JStr (js ''A$B'')), (js ''link'', JStr (js ''h'')),
                             (js ''published'', JStr [])]]))\<close>
  by (simp add: all_eval)




lemma run_loop_skip:
  assumes "issue_task env issue t = (Return (), t')"
  shows "run_loop env (issue # rest) t = run_loop env rest t'"
  using assms by (simp add: js_bind_def pool_add_def)

text \<open>
  Claim C8. For a body without a fenced block, \<^verbatim>\<open>processIssue\<close> logs a warning and
  returns \<^verbatim>\<open>null\<close>. For a body whose captured span
  is not valid JSON, the \<^verbatim>\<open>SyntaxError\<close> of the parser is handed to the error handler
  and \<^verbatim>\<open>processIssue\<close> returns \<^verbatim>\<open>null\<close>. In both cases, as for every issue without a
  directive, the task ends normally with log entries only, no request and no update,
  and the loop goes on with the remaining issues.
\<close>

theorem malformed_directive_skipped:
  "(\<forall>b. body issue = Some b \<and> b \<noteq> [] \<and> \<not> fenced_block b \<longrightarrow>
      processIssue env issue t =
        (Return None, t @ [Logger Info ''Processing issue'', Logger Warn ''No JSON content found'']))
 \<and> (\<forall>b span. body issue = Some b \<and> b \<noteq> [] \<and> directive_span b = Some span
        \<and> JSON_parse span = None \<longrightarrow>
      processIssue env issue t =
        (Return None, t @ [Logger Info ''Processing issue'', Logger Info ''Found JSON content'',
                           HandleError SyntaxError ''Error processing issue'']))
 \<and> (directive issue = None \<longrightarrow>
      (\<exists>logs. list_all is_log logs
          \<and> processIssue env issue t = (Return None, t @ logs)
          \<and> issue_task env issue t = (Return (), t @ logs)
          \<and> updates (t @ logs) = updates t \<and> gets (t @ logs) = gets t
          \<and> (\<forall>rest. run_loop env (issue # rest) t = run_loop env rest (t @ logs))))"
proof (intro conjI allI impI)
  fix b
  assume "body issue = Some b \<and> b \<noteq> [] \<and> \<not> fenced_block b"
  then have "body issue = Some b \<and> b \<noteq> [] \<and> directive_span b = None"
    by (simp add: directive_span_fenced)
  then show "processIssue env issue t =
        (Return None, t @ [Logger Info ''Processing issue'', Logger Warn ''No JSON content found''])"
    by (simp add: processIssue_def processIssue_try_def try_catch_def js_bind_def js_return_def
        logger_def emit_def)
next
  fix b span
  assume "body issue = Some b \<and> b \<noteq> [] \<and> directive_span b = Some span \<and> JSON_parse span = None"
  then show "processIssue env issue t =
        (Return None, t @ [Logger Info ''Processing issue'', Logger Info ''Found JSON content'',
                           HandleError SyntaxError ''Error processing issue''])"
    by (simp add: processIssue_def processIssue_try_def try_catch_def js_bind_def js_return_def
        logger_def emit_def json_parse_def handleError_def)
next
  assume "directive issue = None"
  then obtain logs where r: "processIssue env issue t = (Return None, t @ logs)"
    and l: "list_all is_log logs"
    using processIssue_no_directive by blast
  have k: "issue_task env issue t = (Return (), t @ logs)"
    using r by (rule issue_task_skip)
  have u: "updates (t @ logs) = updates t"
    using updates_logs [OF l] by (simp add: updates_append)
  have g: "gets (t @ logs) = gets t"
    using gets_logs [OF l] by (simp add: gets_append)
  have c: "\<forall>rest. run_loop env (issue # rest) t = run_loop env rest (t @ logs)"
    using run_loop_skip [OF k] by blast
  show "\<exists>logs. list_all is_log logs
          \<and> processIssue env issue t = (Return None, t @ logs)
          \<and> issue_task env issue t = (Return (), t @ logs)
          \<and> updates (t @ logs) = updates t \<and> gets (t @ logs) = gets t
          \<and> (\<forall>rest. run_loop env (issue # rest) t = run_loop env rest (t @ logs))"
    using l r k u g c by blast
qed

theorem malformed_directive_skipped_witness:
  \<open>processIssue (worker_env always_rejected [] update_ok) (issue_of 3 (js ''no block here'')) []
     = (Return None, [Logger Info ''Processing issue'', Logger Warn ''No JSON content found''])
 \<and> processIssue (worker_env always_rejected [] update_ok) (issue_of 4 (js ''```json {"a":} ```'')) []
     = (Return None, [Logger Info ''Processing issue'', Logger Info ''Found JSON content'',
                      HandleError SyntaxError ''Error processing issue''])\<close>
proof -
  let ?env = "worker_env always_rejected [] update_ok"
  have a: "body (issue_of 3 (js ''no block here'')) = Some (js ''no block here'')
         \<and> js ''no block here'' \<noteq> [] \<and> \<not> fenced_block (js ''no block here'')"
    unfolding directive_span_fenced [symmetric] by (simp add: all_eval)
  have b: "body (issue_of 4 (js ''```json {\"a\":} ```'')) = Some (js ''```json {\"a\":} ```'')
         \<and> js ''```json {\"a\":} ```'' \<noteq> []
         \<and> directive_span (js ''```json {\"a\":} ```'') = Some (js ''{\"a\":}'')
         \<and> JSON_parse (js ''{\"a\":}'') = None"
    by (simp add: all_eval)
  from malformed_directive_skipped [of "issue_of 3 (js ''no block here'')" ?env "[]"] a
  have "processIssue ?env (issue_of 3 (js ''no block here'')) []
     = (Return None, [] @ [Logger Info ''Processing issue'', Logger Warn ''No JSON content found''])"
    by blast
  moreover
  from malformed_directive_skipped [of "issue_of 4 (js ''```json {\"a\":} ```'')" ?env "[]"] b
  have "processIssue ?env (issue_of 4 (js ''```json {\"a\":} ```'')) []
     = (Return None, [] @ [Logger Info ''Processing issue'', Logger Info ''Found JSON content'',
                      HandleError SyntaxError ''Error processing issue''])"
    by blast
  ultimately show ?thesis by simp
qed

lemma processIssue_never_throws: "fst (processIssue env issue t) \<noteq> Throw e"
proof (cases "directive issue")
  case None
  then show ?thesis using processIssue_no_directive [of issue env t] by auto
next
  case (Some d)
  obtain b span data where "d = (b, span, data)" by (cases d)
  then show ?thesis
    using Some
    by (simp add: processIssue_directive split: prod.splits res.splits)
qed

lemma issue_task_throws:
  assumes "issue_task env issue t = (Throw e, t')"
  shows "e = UpdateError \<and> (\<exists>t0 data newBody. processIssue env issue t = (Return (Some (data, newBody)), t0)
            \<and> \<not> issues_update env (number issue) newBody
            \<and> t' = t0 @ [IssuesUpdate (number issue) newBody])"
proof -
  obtain r t0 where p: "processIssue env issue t = (r, t0)"
    by (cases "processIssue env issue t")
  have "r \<noteq> Throw e'" for e'
    using processIssue_never_throws [of env issue t e'] p by simp
  then show ?thesis
    using assms p
    by (cases r)
       (auto simp: issue_task_def js_bind_def js_return_def update_issue_def logger_def emit_def
          split: option.splits if_splits)
qed

lemma run_loop_append:
  "run_loop env xs t = (Return (), t1) \<Longrightarrow> run_loop env (xs @ ys) t = run_loop env ys t1"
proof (induction xs arbitrary: t)
  case Nil
  then show ?case by (simp add: js_return_def)
next
  case (Cons x xs)
  obtain r u where k: "issue_task env x t = (r, u)"
    by (cases "issue_task env x t")
  show ?case
  proof (cases r)
    case (Return v)
    then show ?thesis
      using Cons.prems Cons.IH [of u] k by (simp add: js_bind_def pool_add_def)
  next
    case (Throw e)
    then show ?thesis
      using Cons.prems k by (simp add: js_bind_def pool_add_def)
  next
    case Unmodelled
    then show ?thesis
      using Cons.prems k by (simp add: js_bind_def pool_add_def)
  qed
qed

text \<open>
  Claim C2, as the code has it. In the pool of section 4.4 the failure of a running task
  frees its slot and starts the next queued task as a success does, and settles the
  promise of its \<^verbatim>\<open>add\<close> as failed. \<^verbatim>\<open>processIssue\<close> never throws, so a task throws only when
  the update of its issue fails. That failure reaches the caller that awaited the
  \<^verbatim>\<open>add\<close> of the task, which is \<^verbatim>\<open>run\<close>: the issues before the failing one have been
  processed, the loop stops at the failing one, \<^verbatim>\<open>run\<close> logs an error and exits with
  status 1, and the issues after it are not processed. When no task throws, every issue
  is processed and \<^verbatim>\<open>run\<close> ends normally.
\<close>

theorem task_failure_stops_run:
  "(\<forall>p task. task \<in> set (running p) \<longrightarrow>
       queue (complete p task False) = queue (complete p task True)
     \<and> running (complete p task False) = running (complete p task True)
     \<and> started (complete p task False) = started (complete p task True)
     \<and> settled (complete p task False) = settled p @ [(task, False)])
 \<and> (\<forall>e. fst (processIssue env issue t) \<noteq> Throw e)
 \<and> (\<forall>e t'. issue_task env issue t = (Throw e, t') \<longrightarrow>
       e = UpdateError
     \<and> (\<exists>t0 data newBody. processIssue env issue t = (Return (Some (data, newBody)), t0)
            \<and> \<not> issues_update env (number issue) newBody
            \<and> t' = t0 @ [IssuesUpdate (number issue) newBody]))
 \<and> (\<forall>xs ys t1 e t2.
       getIssues env = Some (xs @ issue # ys)
     \<and> run_loop env xs (t @ [Logger Info ''start'']) = (Return (), t1)
     \<and> issue_task env issue t1 = (Throw e, t2) \<longrightarrow>
       run env t = (Return (), t2 @ [Logger Error ''Error processing issues'', ProcessExit 1]))
 \<and> (\<forall>xs t1.
       getIssues env = Some xs
     \<and> run_loop env xs (t @ [Logger Info ''start'']) = (Return (), t1) \<longrightarrow>
       run env t = (Return (), t1 @ [Logger Info ''end'']))"
proof (intro conjI allI impI)
  fix p :: pool and task
  assume r: "task \<in> set (running p)"
  show "queue (complete p task False) = queue (complete p task True)"
    and "running (complete p task False) = running (complete p task True)"
    and "started (complete p task False) = started (complete p task True)"
    and "settled (complete p task False) = settled p @ [(task, False)]"
    using r by (simp_all add: complete_def Let_def split: list.splits)
next
  fix e
  show "fst (processIssue env issue t) \<noteq> Throw e"
    by (rule processIssue_never_throws)
next
  fix e t'
  assume "issue_task env issue t = (Throw e, t')"
  then have r: "e = UpdateError \<and> (\<exists>t0 data newBody. processIssue env issue t = (Return (Some (data, newBody)), t0)
            \<and> \<not> issues_update env (number issue) newBody
            \<and> t' = t0 @ [IssuesUpdate (number issue) newBody])"
    by (rule issue_task_throws)
  from r show "e = UpdateError" by blast
  from r show "\<exists>t0 data newBody. processIssue env issue t = (Return (Some (data, newBody)), t0)
            \<and> \<not> issues_update env (number issue) newBody
            \<and> t' = t0 @ [IssuesUpdate (number issue) newBody]"
    by blast
next
  fix xs ys t1 e t2
  assume a: "getIssues env = Some (xs @ issue # ys)
     \<and> run_loop env xs (t @ [Logger Info ''start'']) = (Return (), t1)
     \<and> issue_task env issue t1 = (Throw e, t2)"
  then have "run_loop env (xs @ issue # ys) (t @ [Logger Info ''start'']) = run_loop env (issue # ys) t1"
    using run_loop_append by blast
  also have "\<dots> = (Throw e, t2)"
    using a by (simp add: js_bind_def pool_add_def)
  finally show "run env t = (Return (), t2 @ [Logger Error ''Error processing issues'', ProcessExit 1])"
    using a
    by (simp add: run_def try_catch_def js_bind_def logger_def emit_def list_issues_def)
next
  fix xs t1
  assume "getIssues env = Some xs
     \<and> run_loop env xs (t @ [Logger Info ''start'']) = (Return (), t1)"
  then show "run env t = (Return (), t1 @ [Logger Info ''end''])"
    by (simp add: run_def try_catch_def js_bind_def logger_def emit_def list_issues_def)
qed

theorem task_failure_stops_run_witness:
  \<open>run (worker_env always_rejected
          [issue_of 1 (js ''```json {"a":1} ```''), issue_of 2 (js ''```json {"b":2} ```'')]
          (update_fails_for 1)) []
   = (Return (),
      [Logger Info ''start'', Logger Info ''Processing issue'', Logger Info ''Found JSON content'',
       Logger Info ''Got JSON content'', Logger Info ''Converted JSON content'',
       IssuesUpdate 1 (lines [js ''```json {'', js ''  "a": 1'', js ''} ```'']),
       Logger Error ''Error processing issues'', ProcessExit 1])\<close>
proof -
  let ?i1 = "issue_of 1 (js ''```json {\"a\":1} ```'')"
  let ?i2 = "issue_of 2 (js ''```json {\"b\":2} ```'')"
  let ?env = "worker_env always_rejected [?i1, ?i2] (update_fails_for 1)"
  let ?t2 = "[Logger Info ''start'', Logger Info ''Processing issue'', Logger Info ''Found JSON content'',
       Logger Info ''Got JSON content'', Logger Info ''Converted JSON content'',
       IssuesUpdate 1 (lines [js ''```json {'', js ''  \"a\": 1'', js ''} ```''])]"
  have g: "getIssues ?env = Some ([] @ ?i1 # [?i2])"
    by (simp add: worker_env_def)
  have l: "run_loop ?env [] ([] @ [Logger Info ''start'']) = (Return (), [Logger Info ''start''])"
    by (simp add: js_return_def)
  have k: "issue_task ?env ?i1 [Logger Info ''start''] = (Throw UpdateError, ?t2)"
    by (simp add: all_eval)
  from task_failure_stops_run [of ?env ?i1 "[]"] g l k
  have "run ?env [] = (Return (), ?t2 @ [Logger Error ''Error processing issues'', ProcessExit 1])"
    by blast
  then show ?thesis by simp
qed

theorem failed_update_aborts_batch_counterexample:
  \<open>updates (snd (run (worker_env always_rejected
                       [issue_of 1 (js ''```json {"a":1} ```''), issue_of 2 (js ''```json {"b":2} ```'')]
                       (update_fails_for 1)) []))
     = [(1, lines [js ''```json {'', js ''  "a": 1'', js ''} ```''])]
 \<and> last (snd (run (worker_env always_rejected
                       [issue_of 1 (js ''```json {"a":1} ```''), issue_of 2 (js ''```json {"b":2} ```'')]
                       (update_fails_for 1)) [])) = ProcessExit 1
 \<and> updates (snd (run (worker_env always_rejected
                       [issue_of 1 (js ''```json {"a":1} ```''), issue_of 2 (js ''```json {"b":2} ```'')]
                       update_ok) []))
     = [(1, lines [js ''```json {'', js ''  "a": 1'', js ''} ```'']),
        (2, lines [js ''```json {'', js ''  "b": 2'', js ''} ```''])]\<close>
  by (simp add: all_eval)

section \<open>Properties of the retry wrapper\<close>

lemma invocations_append:
  "invocations (t @ u) = invocations t + invocations u"
  by (simp add: invocations_def)

lemma op_events_append:
  "op_events (t @ u) = op_events t @ op_events u"
  by (simp add: op_events_def)

lemma withRetry_all_fail:
  assumes "\<forall>i\<le>n. outcome (invocations t + i) = Throw (err (invocations t + i))"
  shows "fst (withRetry (scripted outcome) (Suc n) t) = Throw (err (invocations t + n))
       \<and> invocations (snd (withRetry (scripted outcome) (Suc n) t)) = invocations t + Suc n
       \<and> op_events (snd (withRetry (scripted outcome) (Suc n) t))
           = op_events t @ concat (replicate (Suc n) [OpStart, OpEnd])"
  using assms
proof (induction n arbitrary: t)
  case 0
  then show ?case
    by (simp add: scripted_def invocations_def op_events_def)
next
  case (Suc n)
  let ?t = "t @ [OpStart, OpEnd, Logger Warn ''attempt failed'']"
  have inv: "invocations ?t = Suc (invocations t)"
    by (simp add: invocations_def)
  have first: "outcome (invocations t) = Throw (err (invocations t))"
    using Suc.prems by (metis add.right_neutral le0)
  have step: "withRetry (scripted outcome) (Suc (Suc n)) t = withRetry (scripted outcome) (Suc n) ?t"
    by (subst withRetry.simps(2)) (simp add: scripted_def first del: withRetry.simps)
  have rest: "\<forall>i\<le>n. outcome (invocations ?t + i) = Throw (err (invocations ?t + i))"
  proof (intro allI impI)
    fix i assume "i \<le> n"
    then have "Suc i \<le> Suc n" by simp
    then have "outcome (invocations t + Suc i) = Throw (err (invocations t + Suc i))"
      using Suc.prems by blast
    then show "outcome (invocations ?t + i) = Throw (err (invocations ?t + i))"
      by (simp add: inv)
  qed
  have ops: "op_events ?t = op_events t @ [OpStart, OpEnd]"
    by (simp add: op_events_def)
  show ?case
    unfolding step using Suc.IH [OF rest]
    by (simp add: inv ops replicate_app_Cons_same)
qed

lemma withRetry_succeeds_after:
  assumes "\<forall>i<k. outcome (invocations t + i) = Throw (err i)"
    and "outcome (invocations t + k) = Return v"
    and "k \<le> n"
  shows "fst (withRetry (scripted outcome) (Suc n) t) = Return v
       \<and> invocations (snd (withRetry (scripted outcome) (Suc n) t)) = invocations t + Suc k
       \<and> op_events (snd (withRetry (scripted outcome) (Suc n) t))
           = op_events t @ concat (replicate (Suc k) [OpStart, OpEnd])"
  using assms
proof (induction k arbitrary: t n err)
  case 0
  then show ?case
    by (simp add: scripted_def invocations_def op_events_def)
next
  case (Suc k)
  let ?t = "t @ [OpStart, OpEnd, Logger Warn ''attempt failed'']"
  obtain m where n: "n = Suc m" and km: "k \<le> m"
    using Suc.prems(3) by (cases n) auto
  have inv: "invocations ?t = Suc (invocations t)"
    by (simp add: invocations_def)
  have first: "outcome (invocations t) = Throw (err 0)"
    using Suc.prems(1) by (metis add.right_neutral zero_less_Suc)
  have step: "withRetry (scripted outcome) (Suc n) t = withRetry (scripted outcome) (Suc m) ?t"
    unfolding n
    by (subst withRetry.simps(2)) (simp add: scripted_def first del: withRetry.simps)
  have rest: "\<forall>i<k. outcome (invocations ?t + i) = Throw ((\<lambda>j. err (Suc j)) i)"
  proof (intro allI impI)
    fix i assume "i < k"
    then have "outcome (invocations t + Suc i) = Throw (err (Suc i))"
      using Suc.prems(1) by (metis Suc_less_eq)
    then show "outcome (invocations ?t + i) = Throw ((\<lambda>j. err (Suc j)) i)"
      by (simp add: inv)
  qed
  have last: "outcome (invocations ?t + k) = Return v"
    using Suc.prems(2) by (simp add: inv)
  have ops: "op_events ?t = op_events t @ [OpStart, OpEnd]"
    by (simp add: op_events_def)
  show ?case
    unfolding step using Suc.IH [OF rest last km]
    by (simp add: inv ops replicate_app_Cons_same)
qed

text \<open>
  Claim C3. The attempts of \<open>withRetry\<close> follow one another with no overlap: the
  observed starts and ends alternate. An operation that fails twice and then succeeds,
  under \<open>maxAttempts = 3\<close>, gives its success value after exactly three invocations; an
  operation that always fails, under \<open>maxAttempts = K\<close> with \<open>K \<ge> 1\<close>, gives the error of
  its last attempt after exactly \<open>K\<close> invocations.
\<close>

theorem withRetry_attempts:
  "(outcome 0 = Throw e0 \<and> outcome 1 = Throw e1 \<and> outcome 2 = Return v \<longrightarrow>
      fst (withRetry (scripted outcome) 3 []) = Return v
    \<and> invocations (snd (withRetry (scripted outcome) 3 [])) = 3
    \<and> op_events (snd (withRetry (scripted outcome) 3 []))
         = [OpStart, OpEnd, OpStart, OpEnd, OpStart, OpEnd])
 \<and> (0 < K \<and> (\<forall>i. failing i = Throw (err i)) \<longrightarrow>
      fst (withRetry (scripted failing) K []) = Throw (err (K - 1))
    \<and> invocations (snd (withRetry (scripted failing) K [])) = K
    \<and> op_events (snd (withRetry (scripted failing) K []))
         = concat (replicate K [OpStart, OpEnd]))"
proof (intro conjI impI)
  assume a: "outcome 0 = Throw e0 \<and> outcome 1 = Throw e1 \<and> outcome 2 = Return v"
  define err' where "err' = (\<lambda>i::nat. if i = 0 then e0 else e1)"
  have fails: "\<forall>i<2. outcome (invocations [] + i) = Throw (err' i)"
    using a by (auto simp: invocations_def err'_def less_Suc_eq numeral_2_eq_2)
  have ok: "outcome (invocations [] + 2) = Return v"
    using a by (simp add: invocations_def numeral_2_eq_2)
  have three: "(3::nat) = Suc 2" by simp
  note r = withRetry_succeeds_after [OF fails ok order_refl, folded three]
  show "fst (withRetry (scripted outcome) 3 []) = Return v"
    using r by simp
  show "invocations (snd (withRetry (scripted outcome) 3 [])) = 3"
    using r by (simp add: invocations_def)
  show "op_events (snd (withRetry (scripted outcome) 3 []))
         = [OpStart, OpEnd, OpStart, OpEnd, OpStart, OpEnd]"
    using r by (simp add: op_events_def numeral_3_eq_3)
next
  assume b: "0 < K \<and> (\<forall>i. failing i = Throw (err i))"
  then obtain n where K: "K = Suc n" by (cases K) auto
  have fails: "\<forall>i\<le>n. failing (invocations [] + i) = Throw (err (invocations [] + i))"
    using b by simp
  note r = withRetry_all_fail [OF fails]
  show "fst (withRetry (scripted failing) K []) = Throw (err (K - 1))"
    using r by (simp add: K invocations_def)
  show "invocations (snd (withRetry (scripted failing) K [])) = K"
    using r by (simp add: K invocations_def)
  show "op_events (snd (withRetry (scripted failing) K []))
         = concat (replicate K [OpStart, OpEnd])"
    using r by (simp add: K op_events_def)
qed

theorem withRetry_attempts_witness:
  "fst (withRetry (scripted (\<lambda>i. if i < 2 then Throw (Failure i) else Return (7::nat))) 3 [])
     = Return 7
 \<and> invocations (snd (withRetry (scripted (\<lambda>i. if i < 2 then Throw (Failure i) else Return (7::nat))) 3 [])) = 3
 \<and> fst (withRetry (scripted (\<lambda>i. Throw (Failure i) :: nat res)) 4 []) = Throw (Failure 3)
 \<and> invocations (snd (withRetry (scripted (\<lambda>i. Throw (Failure i) :: nat res)) 4 [])) = 4"
  using withRetry_attempts [of "\<lambda>i. if i < 2 then Throw (Failure i) else Return (7::nat)"
      "Failure 0" "Failure 1" 7 4 "\<lambda>i. Throw (Failure i) :: nat res" Failure]
  by simp

section \<open>Properties of the pool\<close>

lemma start_queued_closed:
  "start_queued lim rn sta q =
     (rn @ take (lim - length rn) q, sta @ take (lim - length rn) q, drop (lim - length rn) q)"
proof (induction q arbitrary: rn sta)
  case Nil
  then show ?case by simp
next
  case (Cons task q)
  show ?case
  proof (cases "length rn < lim")
    case True
    then obtain k where k: "lim - length rn = Suc k" by (cases "lim - length rn") auto
    then have "lim - length (rn @ [task]) = k" by simp
    then show ?thesis using True k by (simp add: Cons.IH)
  next
    case False
    then show ?thesis by simp
  qed
qed

lemma pool_inv_new: "pool_inv (new_pool lim)"
  by (simp add: pool_inv_def new_pool_def)

lemma limit_add [simp]: "limit (add p) = limit p"
  by (simp add: add_def start_queued_closed)

lemma limit_complete [simp]: "limit (complete p task ok) = limit p"
  by (simp add: complete_def Let_def split: list.splits)

lemma pool_inv_add:
  assumes "pool_inv p"
  shows "pool_inv (add p)"
proof (cases "queue p = []")
  case True
  show ?thesis
  proof (cases "length (running p) < limit p")
    case True
    then have "take (limit p - length (running p)) [submitted p] = [submitted p]"
      by (cases "limit p - length (running p)") auto
    moreover have "submitted p \<notin> set (started p)"
      using assms \<open>queue p = []\<close> by (auto simp: pool_inv_def)
    ultimately show ?thesis
      using assms \<open>queue p = []\<close> True
      by (auto simp: pool_inv_def add_def start_queued_closed)
  next
    case False
    then show ?thesis
      using assms \<open>queue p = []\<close>
      by (auto simp: pool_inv_def add_def start_queued_closed)
  qed
next
  case False
  then have "length (running p) = limit p"
    using assms by (auto simp: pool_inv_def)
  then show ?thesis
    using assms False
    by (auto simp: pool_inv_def add_def start_queued_closed)
qed

lemma length_remove1_Suc: "x \<in> set xs \<Longrightarrow> Suc (length (remove1 x xs)) = length xs"
  by (induction xs) auto

lemma complete_queue_Nil:
  "task \<in> set (running p) \<Longrightarrow> queue p = [] \<Longrightarrow>
   complete p task ok = p\<lparr>running := remove1 task (running p), settled := settled p @ [(task, ok)]\<rparr>"
  by (simp add: complete_def)

lemma complete_queue_Cons:
  "task \<in> set (running p) \<Longrightarrow> queue p = n # q \<Longrightarrow>
   complete p task ok =
     p\<lparr>running := remove1 task (running p) @ [n], settled := settled p @ [(task, ok)],
       queue := q, started := started p @ [n]\<rparr>"
  by (simp add: complete_def)

lemma pool_inv_complete:
  assumes "pool_inv p"
  shows "pool_inv (complete p task ok)"
proof (cases "task \<in> set (running p)")
  case False
  then show ?thesis using assms by (simp add: complete_def)
next
  case True
  let ?r = "remove1 task (running p)" and ?s = "settled p @ [(task, ok)]"
  have len: "Suc (length ?r) = length (running p)"
    using True by (rule length_remove1_Suc)
  have dr: "distinct (running p)" and ds: "distinct (map fst (settled p))"
    and disj: "set (running p) \<inter> fst ` set (settled p) = {}"
    and cover: "set (running p) \<union> fst ` set (settled p) = set (started p)"
    and bound: "length (running p) \<le> limit p"
    and fifo: "started p @ queue p = [0..<submitted p]"
    using assms by (auto simp: pool_inv_def)
  have sr: "set ?r = set (running p) - {task}"
    using dr by simp
  have A: "set ?r \<union> fst ` set ?s = set (started p)"
    using sr True cover by auto
  have B: "distinct (?r @ map fst ?s)"
    using sr dr ds disj True by auto
  show ?thesis
  proof (cases "queue p")
    case Nil
    have "length ?r \<le> limit p" using len bound by linarith
    then show ?thesis
      unfolding complete_queue_Nil [OF True Nil] pool_inv_def
      using A B fifo Nil by simp
  next
    case (Cons n q)
    have full: "length (running p) = limit p"
      using assms Cons by (auto simp: pool_inv_def)
    have "distinct (started p @ n # q)"
      using fifo Cons by (metis distinct_upt)
    then have nst: "n \<notin> set (started p)"
      by auto
    then have nr: "n \<notin> set ?r" and ns: "n \<notin> fst ` set ?s"
      using A by auto
    have A': "set (?r @ [n]) \<union> fst ` set ?s = set (started p @ [n])"
      using A by auto
    have B': "distinct ((?r @ [n]) @ map fst ?s)"
      using B nr ns by auto
    have l: "length (?r @ [n]) = limit p"
      using len full by simp
    have f: "(started p @ [n]) @ q = [0..<submitted p]"
      using fifo Cons by simp
    show ?thesis
      unfolding complete_queue_Cons [OF True Cons] pool_inv_def
      using A' B' l f by simp
  qed
qed

lemma pool_inv_run: "pool_inv (run_pool lim evs)"
proof -
  have "pool_inv p \<Longrightarrow> pool_inv (foldl pool_step p evs)" for p
  proof (induction evs arbitrary: p)
    case Nil
    then show ?case by simp
  next
    case (Cons ev evs)
    have "pool_inv (pool_step p ev)"
      using Cons.prems by (cases ev) (simp_all add: pool_inv_add pool_inv_complete)
    then show ?case using Cons.IH by simp
  qed
  then show ?thesis
    unfolding run_pool_def using pool_inv_new by blast
qed

lemma limit_run [simp]: "limit (run_pool lim evs) = lim"
proof -
  have step: "limit (pool_step p ev) = limit p" for p ev
    by (cases ev) simp_all
  have "limit (foldl pool_step p evs) = limit p" for p
    by (induction evs arbitrary: p) (simp_all add: step)
  then show ?thesis by (simp add: run_pool_def new_pool_def)
qed

lemma outstanding_complete:
  assumes "task \<in> set (running p)"
  shows "Suc (outstanding (complete p task ok)) = outstanding p"
proof -
  have len: "Suc (length (remove1 task (running p))) = length (running p)"
    using assms by (rule length_remove1_Suc)
  show ?thesis
  proof (cases "queue p")
    case Nil
    show ?thesis
      unfolding complete_queue_Nil [OF assms Nil] outstanding_def using len Nil by simp
  next
    case (Cons n q)
    show ?thesis
      unfolding complete_queue_Cons [OF assms Cons] outstanding_def using len Cons by simp
  qed
qed

lemma submitted_complete [simp]: "submitted (complete p task ok) = submitted p"
  by (simp add: complete_def Let_def split: list.splits)

lemma complete_all_done:
  assumes "pool_inv p" and "valid_completions p cs" and "length cs = outstanding p"
  shows "queue (complete_all p cs) = [] \<and> running (complete_all p cs) = []
       \<and> fst ` set (settled (complete_all p cs)) = {0..<submitted p}"
  using assms
proof (induction cs arbitrary: p)
  case Nil
  then have q: "queue p = []" and r: "running p = []"
    by (simp_all add: outstanding_def)
  from Nil.prems(1) have "started p @ queue p = [0..<submitted p]"
    and "set (running p) \<union> fst ` set (settled p) = set (started p)"
    by (simp_all add: pool_inv_def)
  then have "fst ` set (settled p) = {0..<submitted p}"
    using q r by (metis append_Nil2 atLeastLessThan_upt empty_set sup_bot_left)
  then show ?case using q r by simp
next
  case (Cons c cs)
  obtain task ok where c: "c = (task, ok)" by (cases c)
  have rn: "task \<in> set (running p)" and rest: "valid_completions (complete p task ok) cs"
    using Cons.prems(2) c by simp_all
  have "length cs = outstanding (complete p task ok)"
    using Cons.prems(3) outstanding_complete [OF rn, of ok] by simp
  then show ?case
    using Cons.IH [OF pool_inv_complete [OF Cons.prems(1)] rest] c by simp
qed

lemma settled_run:
  "(task, ok) \<in> set (settled (run_pool lim evs)) \<Longrightarrow> Complete task ok \<in> set evs"
proof -
  have "(task, ok) \<in> set (settled (foldl pool_step p evs)) \<Longrightarrow>
        (task, ok) \<in> set (settled p) \<or> Complete task ok \<in> set evs" for p
  proof (induction evs arbitrary: p)
    case Nil
    then show ?case by simp
  next
    case (Cons ev evs)
    from Cons.IH [of "pool_step p ev"] Cons.prems
    have "(task, ok) \<in> set (settled (pool_step p ev)) \<or> Complete task ok \<in> set evs"
      by simp
    moreover have "(task, ok) \<in> set (settled (pool_step p ev)) \<Longrightarrow>
        (task, ok) \<in> set (settled p) \<or> ev = Complete task ok"
      by (cases ev) (auto simp: add_def complete_def Let_def split: prod.splits list.splits if_splits)
    ultimately show ?case by auto
  qed
  from this [of "new_pool lim"] show "(task, ok) \<in> set (settled (run_pool lim evs)) \<Longrightarrow> Complete task ok \<in> set evs"
    by (simp add: run_pool_def new_pool_def)
qed

lemma submitted_run:
  "submitted (run_pool lim evs) = length (filter (\<lambda>ev. ev = Add) evs)"
proof -
  have step: "submitted (pool_step p ev) = submitted p + (if ev = Add then 1 else 0)" for p ev
    by (cases ev) (simp_all add: add_def split: prod.splits)
  have "submitted (foldl pool_step p evs) = submitted p + length (filter (\<lambda>ev. ev = Add) evs)" for p
    by (induction evs arbitrary: p) (simp_all add: step)
  then show ?thesis by (simp add: run_pool_def new_pool_def)
qed

text \<open>
  Claim C6. In every state the pool reaches from its construction with a bound
  \<open>limit \<ge> 1\<close>, whatever the order of submissions and completions: at most \<open>limit\<close> tasks
  are running; the tasks started so far are the oldest submissions, in submission order,
  and no task waits while a slot is free; the completion of a running task starts
  exactly the oldest queued task, when there is one; the promise of an \<^verbatim>\<open>add\<close> is settled
  only by the completion of its task, which is then neither queued nor running; and a
  task is running as long as one is outstanding, so that after as many completions as
  there are outstanding tasks every submitted task has completed.
\<close>

theorem pool_bounded_fifo_complete:
  assumes "0 < lim" and "p = run_pool lim evs"
  shows "length (running p) \<le> lim
    \<and> submitted p = length (filter (\<lambda>ev. ev = Add) evs)
    \<and> started p @ queue p = [0..<submitted p]
    \<and> (queue p = [] \<or> length (running p) = lim)
    \<and> (\<forall>task ok. task \<in> set (running p) \<longrightarrow>
          (case queue p of
             [] \<Rightarrow> started (complete p task ok) = started p
           | n # q \<Rightarrow> started (complete p task ok) = started p @ [n]
                      \<and> queue (complete p task ok) = q))
    \<and> (\<forall>task ok. (task, ok) \<in> set (settled p) \<longrightarrow>
          Complete task ok \<in> set evs \<and> task \<notin> set (running p) \<and> task \<notin> set (queue p))
    \<and> (0 < outstanding p \<longrightarrow> running p \<noteq> [])
    \<and> (\<forall>cs. valid_completions p cs \<and> length cs = outstanding p \<longrightarrow>
          queue (complete_all p cs) = [] \<and> running (complete_all p cs) = []
        \<and> fst ` set (settled (complete_all p cs)) = {0..<submitted p})"
proof -
  have inv: "pool_inv p"
    using assms(2) by (simp add: pool_inv_run)
  have lim: "limit p = lim"
    using assms(2) by simp
  have bound: "length (running p) \<le> lim"
    and full: "queue p = [] \<or> length (running p) = lim"
    and fifo: "started p @ queue p = [0..<submitted p]"
    and dist: "distinct (running p @ map fst (settled p))"
    and cover: "set (running p) \<union> fst ` set (settled p) = set (started p)"
    using inv lim by (auto simp: pool_inv_def)
  have sub: "submitted p = length (filter (\<lambda>ev. ev = Add) evs)"
    using assms(2) by (simp add: submitted_run)
  have one: "\<forall>task ok. task \<in> set (running p) \<longrightarrow>
          (case queue p of
             [] \<Rightarrow> started (complete p task ok) = started p
           | n # q \<Rightarrow> started (complete p task ok) = started p @ [n]
                      \<and> queue (complete p task ok) = q)"
    by (auto simp: complete_queue_Nil complete_queue_Cons split: list.splits)
  have dsq: "distinct (started p @ queue p)"
    using fifo by (metis distinct_upt)
  have resolved: "\<forall>task ok. (task, ok) \<in> set (settled p) \<longrightarrow>
          Complete task ok \<in> set evs \<and> task \<notin> set (running p) \<and> task \<notin> set (queue p)"
  proof (intro allI impI)
    fix task ok
    assume s: "(task, ok) \<in> set (settled p)"
    then have "Complete task ok \<in> set evs"
      using assms(2) settled_run by blast
    moreover have f: "task \<in> fst ` set (settled p)"
      using s by force
    then have "task \<notin> set (running p)"
      using dist by auto
    moreover have "task \<in> set (started p)"
      using f cover by blast
    then have "task \<notin> set (queue p)"
      using dsq by auto
    ultimately show "Complete task ok \<in> set evs \<and> task \<notin> set (running p) \<and> task \<notin> set (queue p)"
      by blast
  qed
  have progress: "0 < outstanding p \<longrightarrow> running p \<noteq> []"
    using full assms(1) by (auto simp: outstanding_def)
  have fin: "\<forall>cs. valid_completions p cs \<and> length cs = outstanding p \<longrightarrow>
          queue (complete_all p cs) = [] \<and> running (complete_all p cs) = []
        \<and> fst ` set (settled (complete_all p cs)) = {0..<submitted p}"
    using complete_all_done [OF inv] by blast
  show ?thesis
    using bound sub fifo full one resolved progress fin by blast
qed

theorem pool_bounded_fifo_complete_witness:
  "running (run_pool 2 [Add, Add, Add, Add, Add]) = [0, 1]
 \<and> queue (run_pool 2 [Add, Add, Add, Add, Add]) = [2, 3, 4]
 \<and> length (running (run_pool 2 [Add, Add, Add, Add, Add])) \<le> 2
 \<and> started (run_pool 2 [Add, Add, Add, Add, Add, Complete 1 False])  = [0, 1, 2]
 \<and> fst ` set (settled (complete_all (run_pool 2 [Add, Add, Add, Add, Add])
        [(1, False), (0, True), (2, True), (4, True), (3, True)])) = {0..<5}"
proof -
  let ?p = "run_pool 2 [Add, Add, Add, Add, Add]"
  have p: "?p = \<lparr>limit = 2, submitted = 5, queue = [2, 3, 4], running = [0, 1],
                  started = [0, 1], settled = []\<rparr>"
    by (simp add: run_pool_def new_pool_def add_def)
  have v: "valid_completions ?p [(1, False), (0, True), (2, True), (4, True), (3, True)]"
    unfolding p by (simp add: complete_def)
  have o: "length [(1::nat, False), (0, True), (2, True), (4, True), (3, True)] = outstanding ?p"
    unfolding p by (simp add: outstanding_def)
  have s: "started (run_pool 2 [Add, Add, Add, Add, Add, Complete 1 False])  = [0, 1, 2]"
    by (simp add: run_pool_def new_pool_def add_def complete_def)
  have pos: "(0::nat) < 2" by simp
  note T = pool_bounded_fifo_complete [OF pos refl, of "[Add, Add, Add, Add, Add]"]
  from T have "length (running ?p) \<le> 2" by blast
  moreover from T v o
  have "fst ` set (settled (complete_all ?p
          [(1, False), (0, True), (2, True), (4, True), (3, True)])) = {0..<submitted ?p}"
    by blast
  moreover have "submitted ?p = 5" unfolding p by simp
  ultimately show ?thesis using s by (simp only: p) simp
qed

end
